theory Spec2Isabelle
  imports Main "HOL-Library.Word" "HOL-Library.AList"
begin

section \<open>conv2docx: the command line pipeline of \<^verbatim>\<open>src/conv2docx/cli.py\<close>\<close>

text \<open>
  The program turns YAML and JSON files into Word documents in three steps per file:
  \<^verbatim>\<open>convert_yaml_to_json\<close>, \<^verbatim>\<open>prepare_markdown_file\<close> and
  \<^verbatim>\<open>convert_md_to_docx\<close>, driven by \<^verbatim>\<open>main\<close>. The embedding below follows the
  source function by function. What the source only calls is modelled as follows.

  \<^item> The platform is POSIX: \<^verbatim>\<open>os.path\<close> is \<^verbatim>\<open>posixpath\<close> and a text file is written
    without newline translation.
  \<^item> A path is a Python \<^verbatim>\<open>str\<close> whose code points are below 256, an Isabelle
    \<open>string\<close>. Text read from or written to a file is a list of code points, and a
    file holds bytes; the UTF-8 codec between the two is written out.
  \<^item> The file system is a finite table from paths to files and directories, together with
    the paths on which opening for reading, opening for writing and \<^verbatim>\<open>os.remove\<close>
    fail. These are the failures the source catches in its \<^verbatim>\<open>except\<close> blocks.
  \<^item> \<^verbatim>\<open>yaml.safe_load\<close> and the pandoc engine behind \<^verbatim>\<open>pypandoc.convert_file\<close> are
    parameters (the record \<open>externals\<close>); \<^verbatim>\<open>json.dump\<close> is written out after CPython's
    \<^verbatim>\<open>json.encoder\<close> (the generator \<^verbatim>\<open>_make_iterencode\<close>, which is the one
    \<^verbatim>\<open>json.dump\<close> runs when an indent is given).
  \<^item> Console output is a list of messages returned by each function. Printing and the
    lookup of the installed version are taken to succeed.
  \<^item> The program never reads a JSON artifact back. To state what parsing the artifact
    gives, \<^verbatim>\<open>json.load\<close> is written out as well, after CPython's \<^verbatim>\<open>json.decoder\<close>.
\<close>

subsection \<open>Strings and paths\<close>

type_synonym path = string

text \<open>\<^verbatim>\<open>str.rfind\<close> for a single character: the last index, or -1.\<close>

definition rfind :: "string \<Rightarrow> char \<Rightarrow> int" where
  "rfind p c =
     (if c \<in> set p
      then int (length p) - 1 - int (length (takeWhile (\<lambda>x. x \<noteq> c) (rev p)))
      else - 1)"

text \<open>\<^verbatim>\<open>str.endswith\<close> with one suffix and with a tuple of suffixes.\<close>

definition endswith :: "string \<Rightarrow> string \<Rightarrow> bool" where
  "endswith s suf = (length suf \<le> length s \<and> drop (length s - length suf) s = suf)"

definition endswith_any :: "string \<Rightarrow> string list \<Rightarrow> bool" where
  "endswith_any s sufs = list_ex (endswith s) sufs"

text \<open>
  \<^verbatim>\<open>str.lower\<close> on code points below 256: the ASCII capitals and the Latin-1 capitals
  (U+00C0 to U+00DE without the multiplication sign U+00D7) move up by 32.
\<close>

definition lower_char :: "char \<Rightarrow> char" where
  "lower_char c =
     (let n = (of_char c :: nat)
      in if (65 \<le> n \<and> n \<le> 90) \<or> (192 \<le> n \<and> n \<le> 222 \<and> n \<noteq> 215)
         then char_of (n + 32) else c)"

definition lower :: "string \<Rightarrow> string" where
  "lower s = map lower_char s"

text \<open>
  \<^verbatim>\<open>genericpath._splitext(p, sep, altsep, extsep)\<close> as \<^verbatim>\<open>posixpath.splitext\<close> calls it,
  with separator \<^verbatim>\<open>/\<close>, no alternative separator and extension separator \<^verbatim>\<open>.\<close>:
  \<^verbatim>\<open>
    sepIndex = p.rfind(sep)
    dotIndex = p.rfind(extsep)
    if dotIndex > sepIndex:
        # skip all leading dots
        filenameIndex = sepIndex + 1
        while filenameIndex < dotIndex:
            if p[filenameIndex:filenameIndex+1] != extsep:
                return p[:dotIndex], p[dotIndex:]
            filenameIndex += 1
    return p, p[:0]
  \<close>
  \<open>splitext_loop p i d\<close> is the while loop started at \<open>filenameIndex = i\<close>: it answers
  whether the loop returns the split.
\<close>

function splitext_loop :: "string \<Rightarrow> nat \<Rightarrow> nat \<Rightarrow> bool" where
  "splitext_loop p filenameIndex dotIndex =
     (if filenameIndex < dotIndex
      then (if take 1 (drop filenameIndex p) \<noteq> ''.'' then True
            else splitext_loop p (Suc filenameIndex) dotIndex)
      else False)"
  by pat_completeness auto
termination
  by (relation "measure (\<lambda>(p, i, d). d - i)") auto

declare splitext_loop.simps [simp del]

definition splitext :: "string \<Rightarrow> string \<times> string" where
  "splitext p =
     (let sepIndex = rfind p CHR ''/'';
          dotIndex = rfind p CHR ''.''
      in if dotIndex > sepIndex \<and> splitext_loop p (nat (sepIndex + 1)) (nat dotIndex)
         then (take (nat dotIndex) p, drop (nat dotIndex) p)
         else (p, []))"

text \<open>\<^verbatim>\<open>posixpath.basename\<close>: \<^verbatim>\<open>i = p.rfind('/') + 1; return p[i:]\<close>.\<close>

definition basename :: "string \<Rightarrow> string" where
  "basename p = drop (nat (rfind p CHR ''/'' + 1)) p"

subsection \<open>Text, bytes and the UTF-8 codec\<close>

type_synonym pystr = "nat list"
type_synonym byte = "8 word"

text \<open>A text literal: the code points of an ASCII string.\<close>

definition str :: "string \<Rightarrow> pystr" where
  "str s = map of_char s"

text \<open>
  The strict UTF-8 encoder of Python: a surrogate (U+D800 to U+DFFF) cannot be
  encoded (\<^verbatim>\<open>UnicodeEncodeError\<close>), and no character lies above U+10FFFF.
\<close>

definition utf8_encode_char :: "nat \<Rightarrow> byte list option" where
  "utf8_encode_char c =
     (if c < 0x80 then Some [of_nat c]
      else if c < 0x800 then Some [of_nat (0xC0 + c div 0x40), of_nat (0x80 + c mod 0x40)]
      else if c < 0x10000 then
        (if 0xD800 \<le> c \<and> c < 0xE000 then None
         else Some [of_nat (0xE0 + c div 0x1000), of_nat (0x80 + c div 0x40 mod 0x40),
                    of_nat (0x80 + c mod 0x40)])
      else if c < 0x110000 then
        Some [of_nat (0xF0 + c div 0x40000), of_nat (0x80 + c div 0x1000 mod 0x40),
              of_nat (0x80 + c div 0x40 mod 0x40), of_nat (0x80 + c mod 0x40)]
      else None)"

fun utf8_encode :: "pystr \<Rightarrow> byte list option" where
  "utf8_encode [] = Some []"
| "utf8_encode (c # cs) =
     (case utf8_encode_char c of
        None \<Rightarrow> None
      | Some bs \<Rightarrow> (case utf8_encode cs of None \<Rightarrow> None | Some r \<Rightarrow> Some (bs @ r)))"

text \<open>
  The strict UTF-8 decoder: a continuation byte is 0x80 to 0xBF; overlong forms,
  surrogates and values above U+10FFFF are refused (\<^verbatim>\<open>UnicodeDecodeError\<close>).
\<close>

definition is_cont :: "byte \<Rightarrow> bool" where
  "is_cont b = (0x80 \<le> unat b \<and> unat b < 0xC0)"

definition cont_bits :: "byte \<Rightarrow> nat" where
  "cont_bits b = unat b - 0x80"

fun utf8_decode :: "byte list \<Rightarrow> pystr option" where
  "utf8_decode [] = Some []"
| "utf8_decode (b # bs) =
     (let n = unat b in
      if n < 0x80 then map_option ((#) n) (utf8_decode bs)
      else if 0xC0 \<le> n \<and> n < 0xE0 then
        (case bs of
           b1 # r \<Rightarrow>
             (let c = (n - 0xC0) * 0x40 + cont_bits b1
              in if is_cont b1 \<and> 0x80 \<le> c then map_option ((#) c) (utf8_decode r) else None)
         | _ \<Rightarrow> None)
      else if 0xE0 \<le> n \<and> n < 0xF0 then
        (case bs of
           b1 # b2 # r \<Rightarrow>
             (let c = (n - 0xE0) * 0x1000 + cont_bits b1 * 0x40 + cont_bits b2
              in if is_cont b1 \<and> is_cont b2 \<and> 0x800 \<le> c \<and> \<not> (0xD800 \<le> c \<and> c < 0xE000)
                 then map_option ((#) c) (utf8_decode r) else None)
         | _ \<Rightarrow> None)
      else if 0xF0 \<le> n \<and> n < 0xF8 then
        (case bs of
           b1 # b2 # b3 # r \<Rightarrow>
             (let c = (n - 0xF0) * 0x40000 + cont_bits b1 * 0x1000 + cont_bits b2 * 0x40
                      + cont_bits b3
              in if is_cont b1 \<and> is_cont b2 \<and> is_cont b3 \<and> 0x10000 \<le> c \<and> c < 0x110000
                 then map_option ((#) c) (utf8_decode r) else None)
         | _ \<Rightarrow> None)
      else None)"

text \<open>
  The code points the codec accepts: the Unicode scalar values, which are all code
  points up to U+10FFFF but the surrogates.
\<close>

definition scalar_value :: "nat \<Rightarrow> bool" where
  "scalar_value c = (c < 0xD800 \<or> (0xE000 \<le> c \<and> c < 0x110000))"

text \<open>
  Reading in text mode with the default \<^verbatim>\<open>newline=None\<close> turns \<^verbatim>\<open>\r\n\<close> and a lone
  \<^verbatim>\<open>\r\<close> into \<^verbatim>\<open>\n\<close> (universal newlines).
\<close>

fun universal_newlines :: "pystr \<Rightarrow> pystr" where
  "universal_newlines [] = []"
| "universal_newlines [c] = [if c = 13 then 10 else c]"
| "universal_newlines (c # d # cs) =
     (if c = 13 \<and> d = 10 then 10 # universal_newlines cs
      else if c = 13 then 10 # universal_newlines (d # cs)
      else c # universal_newlines (d # cs))"

subsection \<open>The file system\<close>

datatype error =
    FileNotFoundError | IsADirectoryError | PermissionError
  | UnicodeDecodeError | UnicodeEncodeError
  | YAMLError | TypeError | RuntimeError

datatype node = File "byte list" | Dir

text \<open>
  \<open>fs\<close> is the table of the file system (the first entry of a path counts). A
  path in \<open>unreadable\<close> cannot be opened for reading, one in \<open>unwritable\<close> cannot be
  opened for writing or created, and \<^verbatim>\<open>os.remove\<close> fails on one in \<open>undeletable\<close>.
  \<open>dist_version\<close> is what \<^verbatim>\<open>importlib.metadata.version('conv2docx')\<close> returns.
\<close>

record world =
  fs :: "(path \<times> node) list"
  unreadable :: "path list"
  unwritable :: "path list"
  undeletable :: "path list"
  dist_version :: string

definition lookup :: "world \<Rightarrow> path \<Rightarrow> node option" where
  "lookup w p = map_of (fs w) p"

text \<open>\<^verbatim>\<open>os.path.isfile\<close> and \<^verbatim>\<open>os.path.exists\<close>.\<close>

definition isfile :: "world \<Rightarrow> path \<Rightarrow> bool" where
  "isfile w p = (case lookup w p of Some (File bs) \<Rightarrow> True | _ \<Rightarrow> False)"

definition path_exists :: "world \<Rightarrow> path \<Rightarrow> bool" where
  "path_exists w p = (lookup w p \<noteq> None)"

text \<open>
  \<^verbatim>\<open>os.listdir()\<close>: the names in the working directory, in the table's order. A path
  without \<^verbatim>\<open>/\<close> names an entry of the working directory.
\<close>

definition listdir :: "world \<Rightarrow> path list" where
  "listdir w =
     filter (\<lambda>p. p \<noteq> [] \<and> p \<noteq> ''.'' \<and> p \<noteq> ''..'' \<and> CHR ''/'' \<notin> set p)
       (remdups (map fst (fs w)))"

text \<open>
  \<^verbatim>\<open>open(p, 'r', encoding='utf-8')\<close> followed by reading the whole stream: the bytes are
  decoded and the newlines translated.
\<close>

definition read_bytes :: "world \<Rightarrow> path \<Rightarrow> error + byte list" where
  "read_bytes w p =
     (case lookup w p of
        None \<Rightarrow> Inl FileNotFoundError
      | Some Dir \<Rightarrow> Inl IsADirectoryError
      | Some (File bs) \<Rightarrow> if p \<in> set (unreadable w) then Inl PermissionError else Inr bs)"

definition read_text :: "world \<Rightarrow> path \<Rightarrow> error + pystr" where
  "read_text w p =
     (case read_bytes w p of
        Inl e \<Rightarrow> Inl e
      | Inr bs \<Rightarrow>
          (case utf8_decode bs of
             None \<Rightarrow> Inl UnicodeDecodeError
           | Some t \<Rightarrow> Inr (universal_newlines t)))"

text \<open>
  \<open>put_file\<close> stores the bytes of a file. \<^verbatim>\<open>open(p, 'w', encoding='utf-8')\<close> creates the
  file or truncates it; it fails on a directory and on an unwritable path.
\<close>

definition put_file :: "path \<Rightarrow> byte list \<Rightarrow> world \<Rightarrow> world" where
  "put_file p bs w = w\<lparr>fs := AList.update p (File bs) (fs w)\<rparr>"

definition open_write :: "world \<Rightarrow> path \<Rightarrow> error + world" where
  "open_write w p =
     (if lookup w p = Some Dir then Inl IsADirectoryError
      else if p \<in> set (unwritable w) then Inl PermissionError
      else Inr (put_file p [] w))"

text \<open>
  Writing strings to the open text file, one \<^verbatim>\<open>write\<close> call per string: each call
  encodes its string at once and raises when that fails; what earlier calls wrote
  reaches the file when it is closed. The result is the bytes written and the error,
  if any.
\<close>

fun write_chunks :: "pystr list \<Rightarrow> byte list \<times> error option" where
  "write_chunks [] = ([], None)"
| "write_chunks (c # cs) =
     (case utf8_encode c of
        None \<Rightarrow> ([], Some UnicodeEncodeError)
      | Some bs \<Rightarrow> (case write_chunks cs of (r, e) \<Rightarrow> (bs @ r, e)))"

text \<open>\<^verbatim>\<open>os.remove\<close>.\<close>

definition os_remove :: "world \<Rightarrow> path \<Rightarrow> error + world" where
  "os_remove w p =
     (case lookup w p of
        None \<Rightarrow> Inl FileNotFoundError
      | Some Dir \<Rightarrow> Inl IsADirectoryError
      | Some (File bs) \<Rightarrow>
          if p \<in> set (undeletable w) then Inl PermissionError
          else Inr (w\<lparr>fs := AList.delete p (fs w)\<rparr>))"

subsection \<open>Console output\<close>

text \<open>One constructor per \<^verbatim>\<open>print\<close> call of the source, with the values it formats.\<close>

datatype msg =
    Version string
  | NoFiles
  | Processing path
  | JsonCreated path
  | YamlFailed error
  | YamlSkipped path
  | NotFound path
  | MdCreated path
  | MdFailed error
  | MdSkipped path
  | DocxSaved path
  | DocxFailed error
  | TempKept "path list"
  | TempRemoved path
  | TempRemoveFailed path error
  | FileFailed path

subsection \<open>Values and the JSON encoder\<close>

text \<open>
  The values \<^verbatim>\<open>yaml.safe_load\<close> builds: \<^verbatim>\<open>None\<close>, booleans, integers, floats,
  strings, lists and dicts (their items in insertion order), and the values JSON has
  no form for (dates, byte strings, sets), which are \<open>POther\<close> and, as keys, \<open>KOther\<close>.
  A float is kept as the text the encoder's \<^verbatim>\<open>_floatstr\<close> prints for it
  (\<^verbatim>\<open>float.__repr__\<close>, or \<^verbatim>\<open>NaN\<close>, \<^verbatim>\<open>Infinity\<close>, \<^verbatim>\<open>-Infinity\<close>); the program never
  computes with it. A value is a finite tree: object graphs with cycles, which YAML
  aliases can build, are not covered.
\<close>

datatype pykey =
    KStr pystr | KInt int | KFloat pystr | KBool bool | KNone | KOther

datatype pyvalue =
    PNone
  | PBool bool
  | PInt int
  | PFloat pystr
  | PStr pystr
  | PList "pyvalue list"
  | PDict "(pykey \<times> pyvalue) list"
  | POther

text \<open>\<^verbatim>\<open>int.__repr__\<close>: decimal digits, with a minus sign for a negative number.\<close>

fun nat_repr :: "nat \<Rightarrow> pystr" where
  "nat_repr n = (if n < 10 then [48 + n] else nat_repr (n div 10) @ [48 + n mod 10])"

declare nat_repr.simps [simp del]

definition int_repr :: "int \<Rightarrow> pystr" where
  "int_repr i = (if i < 0 then 45 # nat_repr (nat (- i)) else nat_repr (nat i))"

text \<open>
  \<^verbatim>\<open>encode_basestring\<close>, the string encoder for \<^verbatim>\<open>ensure_ascii=False\<close>: the quote,
  the backslash and the control characters below U+0020 are escaped
  (\<^verbatim>\<open>ESCAPE = re.compile(r'[\x00-\x1f\\"\b\f\n\r\t]')\<close> with \<^verbatim>\<open>ESCAPE_DCT\<close>), every
  other character stands for itself.
\<close>

definition hex_digit :: "nat \<Rightarrow> nat" where
  "hex_digit d = (if d < 10 then 48 + d else 87 + d)"

definition escape_char :: "nat \<Rightarrow> pystr" where
  "escape_char c =
     (if c = 92 then [92, 92]
      else if c = 34 then [92, 34]
      else if c = 8 then [92, 98]
      else if c = 12 then [92, 102]
      else if c = 10 then [92, 110]
      else if c = 13 then [92, 114]
      else if c = 9 then [92, 116]
      else if c < 32 then [92, 117, 48, 48, hex_digit (c div 16), hex_digit (c mod 16)]
      else [c])"

definition encode_basestring :: "pystr \<Rightarrow> pystr" where
  "encode_basestring s = 34 # concat (map escape_char s) @ [34]"

text \<open>
  The branches of the encoder that yield one string: strings, \<^verbatim>\<open>None\<close>, booleans,
  integers and floats, in the order the source tests them.
\<close>

fun scalar_repr :: "pyvalue \<Rightarrow> pystr option" where
  "scalar_repr (PStr s) = Some (encode_basestring s)"
| "scalar_repr PNone = Some (str ''null'')"
| "scalar_repr (PBool b) = Some (if b then str ''true'' else str ''false'')"
| "scalar_repr (PInt i) = Some (int_repr i)"
| "scalar_repr (PFloat r) = Some r"
| "scalar_repr _ = None"

text \<open>The key of a dict item as a string, or \<open>None\<close> where the encoder raises.\<close>

fun key_str :: "pykey \<Rightarrow> pystr option" where
  "key_str (KStr s) = Some s"
| "key_str (KFloat r) = Some r"
| "key_str (KBool b) = Some (if b then str ''true'' else str ''false'')"
| "key_str KNone = Some (str ''null'')"
| "key_str (KInt i) = Some (int_repr i)"
| "key_str KOther = None"

text \<open>\<^verbatim>\<open>'\n' + _indent * _current_indent_level\<close> with \<^verbatim>\<open>_indent = ' ' * 4\<close>.\<close>

definition newline_indent :: "nat \<Rightarrow> pystr" where
  "newline_indent lvl = 10 # replicate (4 * lvl) 32"

text \<open>
  A generator's run is the list of strings it yields and the exception that ends it,
  if any. \<open>then_yield a b\<close> runs \<open>b\<close> after \<open>a\<close> unless \<open>a\<close> raised.
\<close>

type_synonym chunks = "pystr list \<times> error option"

definition then_yield :: "chunks \<Rightarrow> chunks \<Rightarrow> chunks" where
  "then_yield a b = (case a of (cs, Some e) \<Rightarrow> (cs, Some e) | (cs, None) \<Rightarrow> (cs @ fst b, snd b))"

text \<open>
  \<^verbatim>\<open>_iterencode\<close>, \<^verbatim>\<open>_iterencode_list\<close> and \<^verbatim>\<open>_iterencode_dict\<close> with
  \<^verbatim>\<open>_item_separator = ','\<close> and \<^verbatim>\<open>_key_separator = ': '\<close>, the separators of an
  encoder with an indent. The two \<open>_loop\<close> functions are the \<^verbatim>\<open>for\<close> loops with what
  follows them: \<open>buf\<close> is the pending prefix of the list loop, \<open>first\<close> the flag of the
  dict loop, and \<open>lvl\<close> is \<^verbatim>\<open>_current_indent_level\<close> after the increment.
\<close>

function (sequential) iterencode :: "pyvalue \<Rightarrow> nat \<Rightarrow> chunks"
  and iterencode_list :: "pyvalue list \<Rightarrow> nat \<Rightarrow> chunks"
  and iterencode_list_loop :: "pystr \<Rightarrow> pyvalue list \<Rightarrow> nat \<Rightarrow> chunks"
  and iterencode_dict :: "(pykey \<times> pyvalue) list \<Rightarrow> nat \<Rightarrow> chunks"
  and iterencode_dict_loop :: "bool \<Rightarrow> (pykey \<times> pyvalue) list \<Rightarrow> nat \<Rightarrow> chunks"
where
  "iterencode obj lvl =
     (case scalar_repr obj of
        Some t \<Rightarrow> ([t], None)
      | None \<Rightarrow>
          (case obj of
             PList lst \<Rightarrow> iterencode_list lst lvl
           | PDict dct \<Rightarrow> iterencode_dict dct lvl
           | _ \<Rightarrow> ([], Some TypeError)))"
| "iterencode_list [] lvl = ([str ''[]''], None)"
| "iterencode_list (v # vs) lvl =
     iterencode_list_loop (str ''['' @ newline_indent (Suc lvl)) (v # vs) (Suc lvl)"
| "iterencode_list_loop buf [] lvl = ([newline_indent (lvl - 1), str '']''], None)"
| "iterencode_list_loop buf (v # vs) lvl =
     then_yield
       (case scalar_repr v of
          Some t \<Rightarrow> ([buf @ t], None)
        | None \<Rightarrow> then_yield ([buf], None) (iterencode v lvl))
       (iterencode_list_loop (str '','' @ newline_indent lvl) vs lvl)"
| "iterencode_dict [] lvl = ([str ''{}''], None)"
| "iterencode_dict (kv # kvs) lvl =
     then_yield ([str ''{'', newline_indent (Suc lvl)], None)
       (iterencode_dict_loop True (kv # kvs) (Suc lvl))"
| "iterencode_dict_loop first [] lvl = ([newline_indent (lvl - 1), str ''}''], None)"
| "iterencode_dict_loop first ((k, v) # kvs) lvl =
     (case key_str k of
        None \<Rightarrow> ([], Some TypeError)
      | Some ks \<Rightarrow>
          then_yield
            ((if first then [] else [str '','' @ newline_indent lvl])
               @ [encode_basestring ks, str '': ''], None)
            (then_yield
               (case scalar_repr v of
                  Some t \<Rightarrow> ([t], None)
                | None \<Rightarrow> iterencode v lvl)
               (iterencode_dict_loop False kvs lvl)))"
  by pat_completeness auto
termination
  by (relation "measure (\<lambda>x. case x of
        Inl (Inl (obj, lvl)) \<Rightarrow> 3 * size obj
      | Inl (Inr (lst, lvl)) \<Rightarrow> 3 * size_list size lst + 2
      | Inr (Inl (buf, lst, lvl)) \<Rightarrow> 3 * size_list size lst + 1
      | Inr (Inr (Inl (dct, lvl))) \<Rightarrow> 3 * size_list (size_prod (\<lambda>k. 0) size) dct + 2
      | Inr (Inr (Inr (first, dct, lvl))) \<Rightarrow> 3 * size_list (size_prod (\<lambda>k. 0) size) dct + 1)")
     simp_all

text \<open>
  \<^verbatim>\<open>json.dump(data, dst, indent=4, ensure_ascii=False)\<close>: every string the encoder
  yields is written to the file. The result is the bytes that reach the file and the
  exception, if one ended the call.
\<close>

definition json_dump :: "pyvalue \<Rightarrow> byte list \<times> error option" where
  "json_dump obj =
     (case iterencode obj 0 of
        (cs, e) \<Rightarrow>
          (case write_chunks cs of
             (bs, Some e') \<Rightarrow> (bs, Some e')
           | (bs, None) \<Rightarrow> (bs, e)))"

subsection \<open>JSON text with 4-space indentation\<close>

text \<open>
  The serialization in the specification's words (section 4.2): the value tree as JSON
  text with a stable 4-space indentation. An empty list or dict is \<^verbatim>\<open>[]\<close> or \<^verbatim>\<open>{}\<close>;
  otherwise every element or member stands on a line of its own, indented by four
  spaces for each level of nesting and separated by a comma at the end of the line,
  and the closing bracket stands on a line of its own at the level of the opening one.
  A member is its name as a JSON string, a colon, a space and the value.
  \<open>member_name\<close> is the name JSON gives a key that is not a string.
\<close>

fun member_name :: "pykey \<Rightarrow> pystr" where
  "member_name (KStr s) = s"
| "member_name (KInt i) = int_repr i"
| "member_name (KFloat r) = r"
| "member_name (KBool b) = (if b then str ''true'' else str ''false'')"
| "member_name KNone = str ''null''"
| "member_name KOther = []"

fun json_text :: "nat \<Rightarrow> pyvalue \<Rightarrow> pystr"
  and json_elements :: "nat \<Rightarrow> pyvalue list \<Rightarrow> pystr"
  and json_members :: "nat \<Rightarrow> (pykey \<times> pyvalue) list \<Rightarrow> pystr"
where
  "json_text lvl PNone = str ''null''"
| "json_text lvl (PBool b) = (if b then str ''true'' else str ''false'')"
| "json_text lvl (PInt i) = int_repr i"
| "json_text lvl (PFloat r) = r"
| "json_text lvl (PStr s) = encode_basestring s"
| "json_text lvl (PList xs) =
     (if xs = [] then str ''[]''
      else str ''['' @ newline_indent (Suc lvl) @ json_elements (Suc lvl) xs
           @ newline_indent lvl @ str '']'')"
| "json_text lvl (PDict kvs) =
     (if kvs = [] then str ''{}''
      else str ''{'' @ newline_indent (Suc lvl) @ json_members (Suc lvl) kvs
           @ newline_indent lvl @ str ''}'')"
| "json_text lvl POther = []"
| "json_elements lvl [] = []"
| "json_elements lvl (x # xs) =
     json_text lvl x
     @ (if xs = [] then [] else str '','' @ newline_indent lvl @ json_elements lvl xs)"
| "json_members lvl [] = []"
| "json_members lvl ((k, v) # kvs) =
     encode_basestring (member_name k) @ str '': '' @ json_text lvl v
     @ (if kvs = [] then [] else str '','' @ newline_indent lvl @ json_members lvl kvs)"

text \<open>Bytes that are all ASCII.\<close>

definition ascii_only :: "byte list \<Rightarrow> bool" where
  "ascii_only bs = list_all (\<lambda>b. unat b < 0x80) bs"

subsection \<open>The JSON decoder\<close>

text \<open>
  \<^verbatim>\<open>json.load\<close>, for reading an artifact back: the decoder of CPython's \<^verbatim>\<open>json\<close>
  package (\<^verbatim>\<open>json.decoder\<close> and \<^verbatim>\<open>json.scanner\<close>, with the string scanner of the C
  accelerator, which takes hexadecimal digits only after \<^verbatim>\<open>\u\<close>), written as a
  recursive descent over the rest of the text. A failure (\<^verbatim>\<open>JSONDecodeError\<close>) is
  \<open>None\<close>. A float literal is kept as its text. The recursion limit of the
  interpreter is not modelled, neither here nor in the encoder.
\<close>

text \<open>\<^verbatim>\<open>WHITESPACE = re.compile(r'[ \t\n\r]*')\<close>.\<close>

definition is_ws :: "nat \<Rightarrow> bool" where
  "is_ws c = (c = 32 \<or> c = 9 \<or> c = 10 \<or> c = 13)"

definition skip_ws :: "pystr \<Rightarrow> pystr" where
  "skip_ws s = dropWhile is_ws s"

text \<open>The four hexadecimal digits after \<^verbatim>\<open>\u\<close> and the one-letter escapes.\<close>

definition hex_value :: "nat \<Rightarrow> nat option" where
  "hex_value c =
     (if 48 \<le> c \<and> c \<le> 57 then Some (c - 48)
      else if 97 \<le> c \<and> c \<le> 102 then Some (c - 87)
      else if 65 \<le> c \<and> c \<le> 70 then Some (c - 55)
      else None)"

definition decode_uXXXX :: "pystr \<Rightarrow> nat option" where
  "decode_uXXXX s =
     (case map hex_value (take 4 s) of
        [Some a, Some b, Some c, Some d] \<Rightarrow> Some (((a * 16 + b) * 16 + c) * 16 + d)
      | _ \<Rightarrow> None)"

definition unescape :: "nat \<Rightarrow> nat option" where
  "unescape e =
     (if e = 34 then Some 34
      else if e = 92 then Some 92
      else if e = 47 then Some 47
      else if e = 98 then Some 8
      else if e = 102 then Some 12
      else if e = 110 then Some 10
      else if e = 114 then Some 13
      else if e = 116 then Some 9
      else None)"

definition cons_char :: "nat \<Rightarrow> (pystr \<times> pystr) option \<Rightarrow> (pystr \<times> pystr) option" where
  "cons_char c r = (case r of None \<Rightarrow> None | Some (s, rest) \<Rightarrow> Some (c # s, rest))"

text \<open>
  \<^verbatim>\<open>scanstring\<close> in strict mode, started after the opening quote: the string and the
  text after the closing quote. Two \<^verbatim>\<open>\u\<close> escapes that form a surrogate pair give one
  character.
\<close>

function scanstring :: "pystr \<Rightarrow> (pystr \<times> pystr) option" where
  "scanstring [] = None"
| "scanstring (c # cs) =
     (if c = 34 then Some ([], cs)
      else if c = 92 then
        (case cs of
           [] \<Rightarrow> None
         | e # r \<Rightarrow>
             if e = 117 then
               (case decode_uXXXX r of
                  None \<Rightarrow> None
                | Some uni \<Rightarrow>
                    if 0xD800 \<le> uni \<and> uni \<le> 0xDBFF \<and> take 2 (drop 4 r) = [92, 117] then
                      (case decode_uXXXX (drop 6 r) of
                         None \<Rightarrow> None
                       | Some uni2 \<Rightarrow>
                           if 0xDC00 \<le> uni2 \<and> uni2 \<le> 0xDFFF
                           then cons_char (0x10000 + (uni - 0xD800) * 0x400 + (uni2 - 0xDC00))
                                  (scanstring (drop 10 r))
                           else cons_char uni (scanstring (drop 4 r)))
                    else cons_char uni (scanstring (drop 4 r)))
             else
               (case unescape e of
                  None \<Rightarrow> None
                | Some ch \<Rightarrow> cons_char ch (scanstring r)))
      else if c < 32 then None
      else cons_char c (scanstring cs))"
  by pat_completeness auto
termination
  by (relation "measure length") auto

declare scanstring.simps [simp del]

text \<open>
  \<^verbatim>\<open>NUMBER_RE = (-?(?:0|[1-9][0-9]*))(\.[0-9]+)?([eE][-+]?[0-9]+)?\<close>: the three groups,
  each with the text after it.
\<close>

definition is_digit :: "nat \<Rightarrow> bool" where
  "is_digit c = (48 \<le> c \<and> c \<le> 57)"

definition match_integer :: "pystr \<Rightarrow> (pystr \<times> pystr) option" where
  "match_integer s =
     (case (case s of c # r \<Rightarrow> if c = 45 then ([45], r) else ([], s) | [] \<Rightarrow> ([], s)) of
        (sign, s1) \<Rightarrow>
          (case s1 of
             [] \<Rightarrow> None
           | d # r \<Rightarrow>
               if d = 48 then Some (sign @ [48], r)
               else if 49 \<le> d \<and> d \<le> 57
               then Some (sign @ d # takeWhile is_digit r, dropWhile is_digit r)
               else None))"

definition match_frac :: "pystr \<Rightarrow> pystr \<times> pystr" where
  "match_frac s =
     (case s of
        c # d # r \<Rightarrow>
          if c = 46 \<and> is_digit d then (c # d # takeWhile is_digit r, dropWhile is_digit r)
          else ([], s)
      | _ \<Rightarrow> ([], s))"

definition match_exp :: "pystr \<Rightarrow> pystr \<times> pystr" where
  "match_exp s =
     (case s of
        [] \<Rightarrow> ([], s)
      | c # r \<Rightarrow>
          if c = 101 \<or> c = 69 then
            (case (case r of x # r' \<Rightarrow> if x = 43 \<or> x = 45 then ([x], r') else ([], r)
                   | [] \<Rightarrow> ([], r)) of
               (sg, r1) \<Rightarrow>
                 (case r1 of
                    [] \<Rightarrow> ([], s)
                  | d # r2 \<Rightarrow>
                      if is_digit d
                      then (c # sg @ d # takeWhile is_digit r2, dropWhile is_digit r2)
                      else ([], s)))
          else ([], s))"

text \<open>\<^verbatim>\<open>int\<close> of the text of an integer.\<close>

definition digits_value :: "pystr \<Rightarrow> nat" where
  "digits_value t = foldl (\<lambda>a d. 10 * a + (d - 48)) 0 t"

definition parse_int :: "pystr \<Rightarrow> int" where
  "parse_int t =
     (case t of
        [] \<Rightarrow> 0
      | c # r \<Rightarrow> if c = 45 then - int (digits_value r) else int (digits_value t))"

definition scan_number :: "pystr \<Rightarrow> (pyvalue \<times> pystr) option" where
  "scan_number s =
     (case match_integer s of
        None \<Rightarrow> None
      | Some (integer, r) \<Rightarrow>
          (case match_frac r of
             (frac, r1) \<Rightarrow>
               (case match_exp r1 of
                  (exp, r2) \<Rightarrow>
                    if frac \<noteq> [] \<or> exp \<noteq> [] then Some (PFloat (integer @ frac @ exp), r2)
                    else Some (PInt (parse_int integer), r2))))"

text \<open>
  \<^verbatim>\<open>dict(pairs)\<close>: a later pair with a key that is already there replaces the value
  and keeps the place.
\<close>

fun dict_set :: "(pykey \<times> pyvalue) list \<Rightarrow> pykey \<Rightarrow> pyvalue \<Rightarrow> (pykey \<times> pyvalue) list" where
  "dict_set [] k v = [(k, v)]"
| "dict_set ((k', v') # d) k v =
     (if k' = k then (k', v) # d else (k', v') # dict_set d k v)"

definition dict_of_pairs :: "(pykey \<times> pyvalue) list \<Rightarrow> (pykey \<times> pyvalue) list" where
  "dict_of_pairs pairs = foldl (\<lambda>d (k, v). dict_set d k v) [] pairs"

text \<open>
  \<^verbatim>\<open>scan_once\<close> with the loops of \<^verbatim>\<open>JSONArray\<close> and \<^verbatim>\<open>JSONObject\<close>. The first
  argument bounds the number of nested calls; \<open>json_loads\<close> starts with a bound that
  no text exhausts. \<open>parse_array\<close> stands before a value, with the values read so far;
  \<open>parse_object\<close> stands after the opening quote of a key, with the pairs read so far.
\<close>

function scan_once :: "nat \<Rightarrow> pystr \<Rightarrow> (pyvalue \<times> pystr) option"
  and parse_array :: "nat \<Rightarrow> pyvalue list \<Rightarrow> pystr \<Rightarrow> (pyvalue \<times> pystr) option"
  and parse_object :: "nat \<Rightarrow> (pykey \<times> pyvalue) list \<Rightarrow> pystr \<Rightarrow> (pyvalue \<times> pystr) option"
where
  "scan_once 0 s = None"
| "scan_once (Suc n) s =
     (case s of
        [] \<Rightarrow> None
      | c # r \<Rightarrow>
          if c = 34 then
            (case scanstring r of None \<Rightarrow> None | Some (t, r') \<Rightarrow> Some (PStr t, r'))
          else if c = 123 then
            (case skip_ws r of
               [] \<Rightarrow> None
             | k # r2 \<Rightarrow>
                 if k = 125 then Some (PDict [], r2)
                 else if k = 34 then parse_object n [] r2
                 else None)
          else if c = 91 then
            (case skip_ws r of
               [] \<Rightarrow> None
             | k # r2 \<Rightarrow> if k = 93 then Some (PList [], r2) else parse_array n [] (k # r2))
          else if take 4 s = str ''null'' then Some (PNone, drop 4 s)
          else if take 4 s = str ''true'' then Some (PBool True, drop 4 s)
          else if take 5 s = str ''false'' then Some (PBool False, drop 5 s)
          else
            (case scan_number s of
               Some vr \<Rightarrow> Some vr
             | None \<Rightarrow>
                 if take 3 s = str ''NaN'' then Some (PFloat (str ''NaN''), drop 3 s)
                 else if take 8 s = str ''Infinity''
                 then Some (PFloat (str ''Infinity''), drop 8 s)
                 else if take 9 s = str ''-Infinity''
                 then Some (PFloat (str ''-Infinity''), drop 9 s)
                 else None))"
| "parse_array 0 acc s = None"
| "parse_array (Suc n) acc s =
     (case scan_once n s of
        None \<Rightarrow> None
      | Some (v, r) \<Rightarrow>
          (case skip_ws r of
             [] \<Rightarrow> None
           | c # r1 \<Rightarrow>
               if c = 93 then Some (PList (acc @ [v]), r1)
               else if c = 44 then parse_array n (acc @ [v]) (skip_ws r1)
               else None))"
| "parse_object 0 acc s = None"
| "parse_object (Suc n) acc s =
     (case scanstring s of
        None \<Rightarrow> None
      | Some (key, r) \<Rightarrow>
          (case skip_ws r of
             [] \<Rightarrow> None
           | c # r1 \<Rightarrow>
               if c \<noteq> 58 then None
               else
                 (case scan_once n (skip_ws r1) of
                    None \<Rightarrow> None
                  | Some (v, r2) \<Rightarrow>
                      (case skip_ws r2 of
                         [] \<Rightarrow> None
                       | d # r3 \<Rightarrow>
                           if d = 125
                           then Some (PDict (dict_of_pairs (acc @ [(KStr key, v)])), r3)
                           else if d = 44 then
                             (case skip_ws r3 of
                                [] \<Rightarrow> None
                              | q # r4 \<Rightarrow>
                                  if q = 34 then parse_object n (acc @ [(KStr key, v)]) r4
                                  else None)
                           else None))))"
  by pat_completeness auto
termination
  by (relation "measure (\<lambda>x. case x of
        Inl (n, s) \<Rightarrow> n
      | Inr (Inl (n, acc, s)) \<Rightarrow> n
      | Inr (Inr (n, acc, s)) \<Rightarrow> n)") auto

declare scan_once.simps [simp del] parse_array.simps [simp del] parse_object.simps [simp del]

text \<open>
  \<^verbatim>\<open>json.loads\<close>: a text that starts with the byte order mark is refused, white space
  may stand before and after the value, and nothing else may follow it.
\<close>

definition json_loads :: "pystr \<Rightarrow> pyvalue option" where
  "json_loads s =
     (if take 1 s = [0xFEFF] then None
      else
        (case scan_once (2 * length s + 1) (skip_ws s) of
           None \<Rightarrow> None
         | Some (v, r) \<Rightarrow> if skip_ws r = [] then Some v else None))"

text \<open>
  \<^verbatim>\<open>json.load\<close> on a file with these bytes, opened as the program opens its files
  (\<^verbatim>\<open>open(p, 'r', encoding='utf-8')\<close>).
\<close>

definition json_load_bytes :: "byte list \<Rightarrow> pyvalue option" where
  "json_load_bytes bs =
     (case utf8_decode bs of
        None \<Rightarrow> None
      | Some t \<Rightarrow> json_loads (universal_newlines t))"

text \<open>
  The texts a float other than NaN is printed as: a JSON number with a fraction or an
  exponent, which is what \<^verbatim>\<open>float.__repr__\<close> gives for a finite float, and the two
  names of the infinities. (A NaN that is read back is a float again, but in Python it
  is equal to no float, itself included.)
\<close>

definition float_text :: "pystr \<Rightarrow> bool" where
  "float_text r =
     (r = str ''Infinity'' \<or> r = str ''-Infinity'' \<or> scan_number r = Some (PFloat r, []))"

text \<open>
  The value trees JSON represents exactly: \<^verbatim>\<open>None\<close>, booleans, integers, floats other
  than NaN, strings, lists of such values and dicts of such values whose keys are
  strings, each key once. As the model keeps of a float only its text, equality of
  floats is equality of these texts: that the float read from the text
  \<^verbatim>\<open>float.__repr__\<close> printed is the float printed is a property of Python's floats
  that the model takes for granted.
\<close>

fun key_text :: "pykey \<Rightarrow> pystr option" where
  "key_text (KStr s) = Some s"
| "key_text _ = None"

fun json_exact :: "pyvalue \<Rightarrow> bool"
  and json_exact_list :: "pyvalue list \<Rightarrow> bool"
  and json_exact_items :: "(pykey \<times> pyvalue) list \<Rightarrow> bool"
where
  "json_exact PNone = True"
| "json_exact (PBool b) = True"
| "json_exact (PInt i) = True"
| "json_exact (PStr s) = True"
| "json_exact (PFloat r) = float_text r"
| "json_exact POther = False"
| "json_exact (PList xs) = json_exact_list xs"
| "json_exact (PDict kvs) = (distinct (map fst kvs) \<and> json_exact_items kvs)"
| "json_exact_list [] = True"
| "json_exact_list (x # xs) = (json_exact x \<and> json_exact_list xs)"
| "json_exact_items [] = True"
| "json_exact_items ((k, v) # kvs) = (key_text k \<noteq> None \<and> json_exact v \<and> json_exact_items kvs)"

text \<open>
  What follows a value in the text the encoder writes: nothing, a newline or a comma.
\<close>

definition delimited :: "pystr \<Rightarrow> bool" where
  "delimited rest = (case rest of [] \<Rightarrow> True | c # r \<Rightarrow> c = 10 \<or> c = 44)"

subsection \<open>The three conversion steps\<close>

text \<open>
  The two libraries the model does not write out: \<open>yaml_safe_load\<close> maps the text of
  a document to its value or to the exception the loader raises, and \<open>pandoc\<close> maps
  the bytes of a Markdown file to the bytes of the Word document, or to \<open>None\<close> when
  the conversion fails.
\<close>

record externals =
  yaml_safe_load :: "pystr \<Rightarrow> error + pyvalue"
  pandoc :: "byte list \<Rightarrow> byte list option"

text \<open>
  \<^verbatim>\<open>convert_yaml_to_json\<close> (the unused \<^verbatim>\<open>base_name\<close> of line 15 is left out). Every
  exception of the \<^verbatim>\<open>try\<close> block ends in the \<^verbatim>\<open>except\<close> branch, which prints it
  and returns \<^verbatim>\<open>None\<close>; a file opened for writing keeps what was written before.
  The model decodes the whole file before the loader sees its text, while the loader
  reads the stream in blocks: for a file that is malformed both as YAML and, further
  on, as UTF-8, the exception that is printed can be the other of the two.
\<close>

definition convert_yaml_to_json ::
  "externals \<Rightarrow> path \<Rightarrow> world \<Rightarrow> path option \<times> msg list \<times> world" where
  "convert_yaml_to_json ex input_file w =
     (let json_file = input_file @ ''.json'' in
      case read_text w input_file of
        Inl e \<Rightarrow> (None, [YamlFailed e], w)
      | Inr src \<Rightarrow>
          (case yaml_safe_load ex src of
             Inl e \<Rightarrow> (None, [YamlFailed e], w)
           | Inr data \<Rightarrow>
               (case open_write w json_file of
                  Inl e \<Rightarrow> (None, [YamlFailed e], w)
                | Inr w1 \<Rightarrow>
                    (case json_dump data of
                       (bs, Some e) \<Rightarrow> (None, [YamlFailed e], put_file json_file bs w1)
                     | (bs, None) \<Rightarrow>
                         (Some json_file, [JsonCreated json_file],
                          put_file json_file bs w1)))))"

text \<open>\<^verbatim>\<open>prepare_markdown_file\<close>. The fence lines are \<^verbatim>\<open>"```json\n"\<close> and \<^verbatim>\<open>"\n```"\<close>.\<close>

definition fence_open :: pystr where
  "fence_open = [96, 96, 96] @ str ''json'' @ [10]"

definition fence_close :: pystr where
  "fence_close = [10, 96, 96, 96]"

definition prepare_markdown_file ::
  "path \<Rightarrow> world \<Rightarrow> path option \<times> msg list \<times> world" where
  "prepare_markdown_file input_file w =
     (if \<not> isfile w input_file then (None, [NotFound input_file], w)
      else
        (let md_file = input_file @ ''.md'' in
         case read_text w input_file of
           Inl e \<Rightarrow> (None, [MdFailed e], w)
         | Inr content \<Rightarrow>
             (let new_content = fence_open @ content @ fence_close in
              case open_write w md_file of
                Inl e \<Rightarrow> (None, [MdFailed e], w)
              | Inr w1 \<Rightarrow>
                  (case write_chunks [new_content] of
                     (bs, Some e) \<Rightarrow> (None, [MdFailed e], put_file md_file bs w1)
                   | (bs, None) \<Rightarrow>
                       (Some md_file, [MdCreated md_file], put_file md_file bs w1)))))"

text \<open>
  \<^verbatim>\<open>pypandoc.convert_file(input_file, 'docx', outputfile=output_file)\<close>: pandoc reads the
  source file and writes the output file, and touches nothing else; any failure is an
  exception and leaves the file system as it was.
\<close>

definition pypandoc_convert_file :: "externals \<Rightarrow> path \<Rightarrow> path \<Rightarrow> world \<Rightarrow> error + world" where
  "pypandoc_convert_file ex source_file outputfile w =
     (case read_bytes w source_file of
        Inl e \<Rightarrow> Inl RuntimeError
      | Inr bs \<Rightarrow>
          (case pandoc ex bs of
             None \<Rightarrow> Inl RuntimeError
           | Some doc \<Rightarrow>
               (case open_write w outputfile of
                  Inl e \<Rightarrow> Inl RuntimeError
                | Inr w1 \<Rightarrow> Inr (put_file outputfile doc w1))))"

text \<open>\<^verbatim>\<open>convert_md_to_docx\<close>; \<open>docx_name\<close> is its \<^verbatim>\<open>output_file\<close> (lines 77 and 78).\<close>

definition docx_name :: "path \<Rightarrow> path" where
  "docx_name input_file =
     (let base_name = fst (splitext (basename input_file)) in base_name @ ''.docx'')"

definition convert_md_to_docx ::
  "externals \<Rightarrow> path \<Rightarrow> world \<Rightarrow> bool \<times> msg list \<times> world" where
  "convert_md_to_docx ex input_file w =
     (let output_file = docx_name input_file in
      case pypandoc_convert_file ex input_file output_file w of
        Inr w1 \<Rightarrow> (True, [DocxSaved output_file], w1)
      | Inl e \<Rightarrow> (False, [DocxFailed e], w))"

subsection \<open>The driver\<close>

text \<open>Lines 101 to 109: the flag, the file arguments and the scan of the directory.\<close>

definition keep_temp :: "string list \<Rightarrow> bool" where
  "keep_temp args = (''--keep-temp'' \<in> set args)"

definition arg_files :: "string list \<Rightarrow> path list" where
  "arg_files args = filter (\<lambda>f. f \<noteq> ''--keep-temp'') args"

definition scan_files :: "world \<Rightarrow> path list" where
  "scan_files w =
     filter (\<lambda>f. endswith_any (lower f) [''.json'', ''.yaml'', ''.yml'']) (listdir w)"

definition input_files :: "string list \<Rightarrow> world \<Rightarrow> path list" where
  "input_files args w = (if arg_files args = [] then scan_files w else arg_files args)"

text \<open>Lines 149 to 155: the loop over \<^verbatim>\<open>to_remove\<close>.\<close>

fun remove_temp_files :: "path list \<Rightarrow> world \<Rightarrow> msg list \<times> world" where
  "remove_temp_files [] w = ([], w)"
| "remove_temp_files (temp_file # rest) w =
     (if path_exists w temp_file then
        (case os_remove w temp_file of
           Inr w1 \<Rightarrow>
             (case remove_temp_files rest w1 of (ms, w2) \<Rightarrow> (TempRemoved temp_file # ms, w2))
         | Inl e \<Rightarrow>
             (case remove_temp_files rest w of
                (ms, w2) \<Rightarrow> (TempRemoveFailed temp_file e # ms, w2)))
      else remove_temp_files rest w)"

text \<open>Lines 140 to 144: the removal list.\<close>

definition to_remove :: "path \<Rightarrow> path \<Rightarrow> path \<Rightarrow> path list" where
  "to_remove file json_file md_file =
     (if json_file \<noteq> file then [json_file] else []) @ (if md_file \<noteq> [] then [md_file] else [])"

text \<open>Lines 139 to 158: what follows the conversion of \<open>md_file\<close>.\<close>

definition cleanup :: "bool \<Rightarrow> path list \<Rightarrow> world \<Rightarrow> msg list \<times> world" where
  "cleanup keep paths w = (if keep then ([TempKept paths], w) else remove_temp_files paths w)"

text \<open>
  Lines 130 to 158, steps 2 to 4 for one file, once \<^verbatim>\<open>json_file\<close> is known. The test
  \<^verbatim>\<open>not md_file\<close> holds for \<^verbatim>\<open>None\<close> and for the empty string.
\<close>

definition finish_file :: "externals \<Rightarrow> bool \<Rightarrow> path \<Rightarrow> path \<Rightarrow> world \<Rightarrow> msg list \<times> world" where
  "finish_file ex keep file json_file w =
     (case prepare_markdown_file json_file w of
        (None, m2, w2) \<Rightarrow> (m2 @ [MdSkipped json_file], w2)
      | (Some md_file, m2, w2) \<Rightarrow>
          if md_file = [] then (m2 @ [MdSkipped json_file], w2)
          else
            (case convert_md_to_docx ex md_file w2 of
               (success, m3, w3) \<Rightarrow>
                 (case cleanup keep (to_remove file json_file md_file) w3 of
                    (m4, w4) \<Rightarrow>
                      (m2 @ m3 @ m4 @ (if success then [] else [FileFailed file]), w4))))"

text \<open>
  The body of the \<^verbatim>\<open>for\<close> loop (lines 116 to 158) for one file. The test
  \<^verbatim>\<open>not json_file\<close> holds for \<^verbatim>\<open>None\<close> and for the empty string.
\<close>

definition process_file :: "externals \<Rightarrow> bool \<Rightarrow> path \<Rightarrow> world \<Rightarrow> msg list \<times> world" where
  "process_file ex keep file w =
     (let ext = lower (snd (splitext file)) in
      if ext = ''.yaml'' \<or> ext = ''.yml'' then
        (case convert_yaml_to_json ex file w of
           (None, m1, w1) \<Rightarrow> (Processing file # m1 @ [YamlSkipped file], w1)
         | (Some json_file, m1, w1) \<Rightarrow>
             if json_file = [] then (Processing file # m1 @ [YamlSkipped file], w1)
             else
               (case finish_file ex keep file json_file w1 of
                  (ms, w2) \<Rightarrow> (Processing file # m1 @ ms, w2)))
      else
        (case finish_file ex keep file file w of
           (ms, w2) \<Rightarrow> (Processing file # ms, w2)))"

fun process_files :: "externals \<Rightarrow> bool \<Rightarrow> path list \<Rightarrow> world \<Rightarrow> msg list \<times> world" where
  "process_files ex keep [] w = ([], w)"
| "process_files ex keep (file # rest) w =
     (case process_file ex keep file w of
        (m1, w1) \<Rightarrow> (case process_files ex keep rest w1 of (m2, w2) \<Rightarrow> (m1 @ m2, w2)))"

text \<open>
  How a run of \<^verbatim>\<open>main\<close> ends: it returns, or \<^verbatim>\<open>sys.exit\<close> is called. The exit
  status of the process is 0 in the first case and the argument in the second.
\<close>

datatype ending = Returned | SysExit int

fun exit_status :: "ending \<Rightarrow> int" where
  "exit_status Returned = 0"
| "exit_status (SysExit n) = n"

text \<open>\<^verbatim>\<open>main\<close>; \<open>args\<close> is \<^verbatim>\<open>sys.argv[1:]\<close>.\<close>

definition main :: "externals \<Rightarrow> string list \<Rightarrow> world \<Rightarrow> ending \<times> msg list \<times> world" where
  "main ex args w =
     (if input_files args w = [] then (SysExit 1, [Version (dist_version w), NoFiles], w)
      else
        (case process_files ex (keep_temp args) (input_files args w) w of
           (ms, w1) \<Rightarrow> (Returned, Version (dist_version w) # ms, w1)))"

subsection \<open>Example inputs\<close>

text \<open>
  Concrete inputs for the examples below. \<open>example_yaml_load\<close> agrees with
  \<^verbatim>\<open>yaml.safe_load\<close> on three documents (a mapping with a string key, the plain scalar
  U+00E9, a mapping with the integer key 1) and raises on every other text, as
  \<^verbatim>\<open>yaml.safe_load\<close> does on the unterminated \<^verbatim>\<open>[1, 2\<close>. \<open>example_pandoc\<close> fails on an
  empty source and otherwise puts two bytes before it.
\<close>

definition ascii :: "string \<Rightarrow> byte list" where
  "ascii s = map of_char s"

definition example_yaml_load :: "pystr \<Rightarrow> error + pyvalue" where
  "example_yaml_load src =
     (if src = str ''key: value'' then Inr (PDict [(KStr (str ''key''), PStr (str ''value''))])
      else if src = [233] then Inr (PStr [233])
      else if src = str ''1: a'' then Inr (PDict [(KInt 1, PStr (str ''a''))])
      else Inl YAMLError)"

definition example_pandoc :: "byte list \<Rightarrow> byte list option" where
  "example_pandoc md = (if md = [] then None else Some (ascii ''PK'' @ md))"

definition example_ex :: externals where
  "example_ex = \<lparr>yaml_safe_load = example_yaml_load, pandoc = example_pandoc\<rparr>"

definition example_world :: world where
  "example_world =
     \<lparr>fs = [(''a.yaml'', File (ascii ''key: value'')),
            (''bad.yml'', File (ascii ''[1, 2'')),
            (''b.json'', File (ascii ''{}'')),
            (''notes.txt'', File (ascii ''hi''))],
      unreadable = [], unwritable = [], undeletable = [], dist_version = ''1.0''\<rparr>"


subsection \<open>The name of the output document in the specification's words\<close>




text \<open>A directory with one YAML file whose text is the single character U+00E9.\<close>

definition accent_world :: world where
  "accent_world = example_world\<lparr>fs := [(''e.yaml'', File [0xC3, 0xA9])]\<rparr>"

text \<open>A directory with one YAML file, a mapping whose key is the integer 1.\<close>

definition key_world :: world where
  "key_world = example_world\<lparr>fs := [(''k.yaml'', File (ascii ''1: a''))]\<rparr>"

section \<open>Properties\<close>

subsection \<open>What the steps print\<close>










subsection \<open>The retention flag\<close>



subsection \<open>The exit status\<close>

text \<open>
  C5. When the candidate list is empty, that is when no argument is left once the flag
  is taken out and the scan of the working directory finds no name that ends, in lower
  case, in \<^verbatim>\<open>.json\<close>, \<^verbatim>\<open>.yaml\<close> or \<^verbatim>\<open>.yml\<close>, the run ends in \<^verbatim>\<open>sys.exit(1)\<close>: the
  exit status is 1, and the file system is what it was, as nothing was written.
\<close>

theorem main_no_candidates:
  assumes "arg_files args = []" and "scan_files w = []"
  shows "exit_status (fst (main ex args w)) = 1 \<and> snd (snd (main ex args w)) = w
         \<and> fst (snd (main ex args w)) = [Version (dist_version w), NoFiles]"
  using assms by (simp add: main_def input_files_def)

theorem main_no_candidates_witness:
  "arg_files [''--keep-temp''] = []
   \<and> scan_files (example_world\<lparr>fs := [(''notes.txt'', File []), (''sub'', Dir)]\<rparr>) = []
   \<and> exit_status (fst (main example_ex [''--keep-temp'']
         (example_world\<lparr>fs := [(''notes.txt'', File []), (''sub'', Dir)]\<rparr>))) = 1
   \<and> snd (snd (main example_ex [''--keep-temp'']
         (example_world\<lparr>fs := [(''notes.txt'', File []), (''sub'', Dir)]\<rparr>)))
       = example_world\<lparr>fs := [(''notes.txt'', File []), (''sub'', Dir)]\<rparr>"
proof -
  let ?w = "example_world\<lparr>fs := [(''notes.txt'', File []), (''sub'', Dir)]\<rparr>"
  have a: "arg_files [''--keep-temp''] = []" by (simp add: arg_files_def)
  have b: "scan_files ?w = []" by code_simp
  from main_no_candidates [OF a b, of example_ex] a b show ?thesis by simp
qed



lemma process_files_append:
  "process_files ex keep (xs @ ys) w =
     (case process_files ex keep xs w of
        (m1, w1) \<Rightarrow> (case process_files ex keep ys w1 of (m2, w2) \<Rightarrow> (m1 @ m2, w2)))"
  by (induction xs arbitrary: w) (auto split: prod.splits)

subsection \<open>A file that fails does not stop the batch\<close>

text \<open>
  C8. Take a batch in which the files \<open>before\<close> come first, then a file \<open>bad\<close> with
  extension \<^verbatim>\<open>.yaml\<close> or \<^verbatim>\<open>.yml\<close> whose text the loader refuses when its turn comes,
  then the files \<open>after\<close>. The YAML step of \<open>bad\<close> yields no artifact: it returns
  \<^verbatim>\<open>None\<close>, prints the error and leaves the file system as it was. The file is
  skipped with its three lines of output, and every other file of the batch is
  processed exactly as in a batch without \<open>bad\<close>: the files after it start from the
  world the files before it left, and the loop reaches the end of the list.
\<close>

theorem unparsable_yaml_isolated:
  assumes ext: "lower (snd (splitext bad)) = ''.yaml'' \<or> lower (snd (splitext bad)) = ''.yml''"
    and before: "process_files ex keep before w = (m1, w1)"
    and src: "read_text w1 bad = Inr src"
    and load: "yaml_safe_load ex src = Inl e"
    and after: "process_files ex keep after w1 = (m2, w2)"
  shows "convert_yaml_to_json ex bad w1 = (None, [YamlFailed e], w1)
         \<and> process_file ex keep bad w1 = ([Processing bad, YamlFailed e, YamlSkipped bad], w1)
         \<and> process_files ex keep (before @ bad # after) w
             = (m1 @ [Processing bad, YamlFailed e, YamlSkipped bad] @ m2, w2)
         \<and> process_files ex keep (before @ after) w = (m1 @ m2, w2)"
proof -
  have c: "convert_yaml_to_json ex bad w1 = (None, [YamlFailed e], w1)"
    using src load by (simp add: convert_yaml_to_json_def)
  have p: "process_file ex keep bad w1 = ([Processing bad, YamlFailed e, YamlSkipped bad], w1)"
    using ext c by (auto simp: process_file_def Let_def)
  show ?thesis
    using c p before after by (simp add: process_files_append)
qed

theorem unparsable_yaml_isolated_witness:
  "process_files example_ex False ([''b.json''] @ ''bad.yml'' # [''a.yaml'']) example_world
   = ([Processing ''b.json'', MdCreated ''b.json.md'', DocxSaved ''b.json.docx'',
       TempRemoved ''b.json.md'']
      @ [Processing ''bad.yml'', YamlFailed YAMLError, YamlSkipped ''bad.yml'']
      @ [Processing ''a.yaml'', JsonCreated ''a.yaml.json'', MdCreated ''a.yaml.json.md'',
         DocxSaved ''a.yaml.json.docx'', TempRemoved ''a.yaml.json'',
         TempRemoved ''a.yaml.json.md''],
      snd (process_files example_ex False [''a.yaml'']
             (snd (process_files example_ex False [''b.json''] example_world))))"
proof -
  let ?w1 = "snd (process_files example_ex False [''b.json''] example_world)"
  let ?w2 = "snd (process_files example_ex False [''a.yaml''] ?w1)"
  have ext: "lower (snd (splitext ''bad.yml'')) = ''.yaml'' \<or> lower (snd (splitext ''bad.yml'')) = ''.yml''"
    by code_simp
  have m1: "fst (process_files example_ex False [''b.json''] example_world)
      = [Processing ''b.json'', MdCreated ''b.json.md'', DocxSaved ''b.json.docx'',
         TempRemoved ''b.json.md'']"
    by code_simp
  have before: "process_files example_ex False [''b.json''] example_world
      = ([Processing ''b.json'', MdCreated ''b.json.md'', DocxSaved ''b.json.docx'',
          TempRemoved ''b.json.md''], ?w1)"
    using m1 by (simp add: prod_eq_iff)
  have src: "read_text ?w1 ''bad.yml'' = Inr (str ''[1, 2'')"
    by code_simp
  have load: "yaml_safe_load example_ex (str ''[1, 2'') = Inl YAMLError"
    by code_simp
  have m2: "fst (process_files example_ex False [''a.yaml''] ?w1)
      = [Processing ''a.yaml'', JsonCreated ''a.yaml.json'', MdCreated ''a.yaml.json.md'',
         DocxSaved ''a.yaml.json.docx'', TempRemoved ''a.yaml.json'',
         TempRemoved ''a.yaml.json.md'']"
    by code_simp
  have after: "process_files example_ex False [''a.yaml''] ?w1
      = ([Processing ''a.yaml'', JsonCreated ''a.yaml.json'', MdCreated ''a.yaml.json.md'',
          DocxSaved ''a.yaml.json.docx'', TempRemoved ''a.yaml.json'',
          TempRemoved ''a.yaml.json.md''], ?w2)"
    using m2 by (simp add: prod_eq_iff)
  from unparsable_yaml_isolated [OF ext before src load after] show ?thesis by simp
qed

subsection \<open>Explicit arguments are not filtered\<close>

text \<open>
  C9. When file arguments are given, the input files are exactly those arguments: no
  test of the extension is made. A file whose lower-cased extension is neither
  \<^verbatim>\<open>.yaml\<close> nor \<^verbatim>\<open>.yml\<close> (be it \<^verbatim>\<open>.txt\<close> or empty) is handed as it is to
  \<^verbatim>\<open>prepare_markdown_file\<close>, as a JSON file would be, and runs through the same
  pipeline: the Markdown file made from it is converted and then cleaned up, and the
  file itself is never in the removal list.
\<close>

theorem explicit_argument_not_filtered:
  assumes args: "arg_files args \<noteq> []"
    and ext: "lower (snd (splitext file)) \<noteq> ''.yaml''" "lower (snd (splitext file)) \<noteq> ''.yml''"
  shows "input_files args w0 = arg_files args
         \<and> process_file ex keep file w =
             (case prepare_markdown_file file w of
                (None, m2, w2) \<Rightarrow> (Processing file # m2 @ [MdSkipped file], w2)
              | (Some md_file, m2, w2) \<Rightarrow>
                  (case convert_md_to_docx ex md_file w2 of
                     (success, m3, w3) \<Rightarrow>
                       (case cleanup keep [md_file] w3 of
                          (m4, w4) \<Rightarrow>
                            (Processing file # m2 @ m3 @ m4
                               @ (if success then [] else [FileFailed file]), w4))))"
proof -
  have md: "\<And>r m w'. prepare_markdown_file file w = (Some r, m, w') \<Longrightarrow> r = file @ ''.md''"
    by (auto simp: prepare_markdown_file_def Let_def
        split: if_splits sum.splits prod.splits option.splits)
  show ?thesis
    using args ext
    by (auto simp: input_files_def process_file_def finish_file_def to_remove_def Let_def
        split: prod.splits option.splits dest: md)
qed

theorem explicit_argument_not_filtered_witness:
  "input_files [''notes.txt'', ''--keep-temp'', ''README''] example_world
     = [''notes.txt'', ''README'']
   \<and> fst (process_file example_ex True ''notes.txt'' example_world)
     = [Processing ''notes.txt'', MdCreated ''notes.txt.md'', DocxSaved ''notes.txt.docx'',
        TempKept [''notes.txt.md'']]
   \<and> lookup (snd (process_file example_ex True ''notes.txt'' example_world)) ''notes.txt.md''
     = Some (File (ascii ''```json'' @ [10] @ ascii ''hi'' @ [10] @ ascii ''```''))"
proof -
  have a: "arg_files [''notes.txt'', ''--keep-temp'', ''README''] \<noteq> []"
    by (simp add: arg_files_def)
  have e: "lower (snd (splitext ''notes.txt'')) \<noteq> ''.yaml''"
    "lower (snd (splitext ''notes.txt'')) \<noteq> ''.yml''"
    by code_simp+
  have p: "prepare_markdown_file ''notes.txt'' example_world
      = (Some ''notes.txt.md'', [MdCreated ''notes.txt.md''],
         put_file ''notes.txt.md'' (ascii ''```json'' @ [10] @ ascii ''hi'' @ [10] @ ascii ''```'')
           (put_file ''notes.txt.md'' [] example_world))"
    by code_simp
  have c: "fst (convert_md_to_docx example_ex ''notes.txt.md''
        (put_file ''notes.txt.md'' (ascii ''```json'' @ [10] @ ascii ''hi'' @ [10] @ ascii ''```'')
           (put_file ''notes.txt.md'' [] example_world))) = True"
    "fst (snd (convert_md_to_docx example_ex ''notes.txt.md''
        (put_file ''notes.txt.md'' (ascii ''```json'' @ [10] @ ascii ''hi'' @ [10] @ ascii ''```'')
           (put_file ''notes.txt.md'' [] example_world)))) = [DocxSaved ''notes.txt.docx'']"
    "lookup (snd (snd (convert_md_to_docx example_ex ''notes.txt.md''
        (put_file ''notes.txt.md'' (ascii ''```json'' @ [10] @ ascii ''hi'' @ [10] @ ascii ''```'')
           (put_file ''notes.txt.md'' [] example_world))))) ''notes.txt.md''
     = Some (File (ascii ''```json'' @ [10] @ ascii ''hi'' @ [10] @ ascii ''```''))"
    by code_simp+
  from explicit_argument_not_filtered [OF a e, of example_world example_ex True example_world]
  show ?thesis
    using p c by (simp add: arg_files_def cleanup_def split: prod.splits)
qed

subsection \<open>Temporary files after the conversion\<close>

lemma lookup_put_file: "lookup (put_file p bs w) q = (if q = p then Some (File bs) else lookup w q)"
  by (simp add: lookup_def put_file_def update_conv')



lemma open_write_Inr: "open_write w p = Inr w1 \<Longrightarrow> w1 = put_file p [] w"
  by (auto simp: open_write_def split: if_splits)













subsection \<open>The name of the output document\<close>















subsection \<open>The Markdown wrapper\<close>

lemma utf8_encode_char_scalar: "scalar_value c \<Longrightarrow> \<exists>bs. utf8_encode_char c = Some bs"
  by (auto simp: scalar_value_def utf8_encode_char_def)

lemma utf8_encode_scalar: "list_all scalar_value cs \<Longrightarrow> \<exists>bs. utf8_encode cs = Some bs"
proof (induction cs)
  case Nil
  then show ?case by simp
next
  case (Cons c cs)
  then obtain b r where "utf8_encode_char c = Some b" "utf8_encode cs = Some r"
    using utf8_encode_char_scalar [of c] by auto
  then show ?case by simp
qed

lemma utf8_decode_scalar: "utf8_decode bs = Some t \<Longrightarrow> list_all scalar_value t"
proof (induction bs arbitrary: t rule: utf8_decode.induct)
  case 1
  then show ?case by simp
next
  case (2 b bs)
  from "2.prems" show ?case
    apply (simp only: utf8_decode.simps Let_def split: if_splits list.splits)
    using "2.IH"
        apply (auto simp: scalar_value_def is_cont_def cont_bits_def)
    done
qed

lemma universal_newlines_scalar:
  "list_all scalar_value t \<Longrightarrow> list_all scalar_value (universal_newlines t)"
  by (induction t rule: universal_newlines.induct) (auto simp: scalar_value_def)

lemma read_text_scalar: "read_text w p = Inr t \<Longrightarrow> list_all scalar_value t"
  by (auto simp: read_text_def split: sum.splits option.splits
      dest!: utf8_decode_scalar intro: universal_newlines_scalar)

lemma fence_scalar: "list_all scalar_value fence_open" "list_all scalar_value fence_close"
  by (simp_all add: fence_open_def fence_close_def str_def scalar_value_def)

lemma read_text_isfile: "read_text w p = Inr t \<Longrightarrow> isfile w p"
  by (auto simp: read_text_def read_bytes_def isfile_def
      split: sum.splits option.splits node.splits if_splits)

lemma put_file_twice: "put_file p bs (put_file p bs' w) = put_file p bs w"
  by (simp add: put_file_def)

text \<open>
  C2, as the code has it. Let \<open>content\<close> be the text read from the input file
  (decoded as UTF-8). The fenced text \<^verbatim>\<open>"```json\n" + content + "\n```"\<close> can always
  be encoded. If the path with \<^verbatim>\<open>.md\<close> appended can be opened for writing,
  \<^verbatim>\<open>prepare_markdown_file\<close> returns that path and the file at it holds exactly the
  UTF-8 bytes of the fenced text, nothing else in the file system being changed; if it
  cannot, the function prints the error, returns \<^verbatim>\<open>None\<close> and writes nothing.
\<close>

theorem prepare_markdown_file_content:
  assumes "read_text w input_file = Inr content"
  shows "\<exists>bs. utf8_encode (fence_open @ content @ fence_close) = Some bs
           \<and> (case open_write w (input_file @ ''.md'') of
                 Inr w1 \<Rightarrow>
                   prepare_markdown_file input_file w
                     = (Some (input_file @ ''.md''), [MdCreated (input_file @ ''.md'')],
                        put_file (input_file @ ''.md'') bs w)
               | Inl e \<Rightarrow> prepare_markdown_file input_file w = (None, [MdFailed e], w))"
proof -
  from read_text_scalar [OF assms] fence_scalar
  have "list_all scalar_value (fence_open @ content @ fence_close)" by simp
  from utf8_encode_scalar [OF this]
  obtain bs where bs: "utf8_encode (fence_open @ content @ fence_close) = Some bs" by blast
  show ?thesis
    using bs assms read_text_isfile [OF assms]
    by (auto simp: prepare_markdown_file_def Let_def put_file_twice
        split: sum.splits dest!: open_write_Inr)
qed

text \<open>
  The claim as the specification states it promises the file and the path for every
  readable input. It fails where the Markdown path cannot be opened for writing: below
  a directory stands at \<^verbatim>\<open>b.json.md\<close>, the input \<^verbatim>\<open>b.json\<close> reads as \<^verbatim>\<open>{}\<close>, and
  the function returns \<^verbatim>\<open>None\<close> and leaves the file system as it was.
\<close>

theorem prepare_markdown_file_content_counterexample:
  "read_text (example_world\<lparr>fs := fs example_world @ [(''b.json.md'', Dir)]\<rparr>) ''b.json''
     = Inr (str ''{}'')
   \<and> prepare_markdown_file ''b.json''
       (example_world\<lparr>fs := fs example_world @ [(''b.json.md'', Dir)]\<rparr>)
     = (None, [MdFailed IsADirectoryError],
        example_world\<lparr>fs := fs example_world @ [(''b.json.md'', Dir)]\<rparr>)"
  by code_simp

theorem prepare_markdown_file_content_witness:
  "read_text example_world ''b.json'' = Inr (str ''{}'')
   \<and> prepare_markdown_file ''b.json'' example_world
     = (Some ''b.json.md'', [MdCreated ''b.json.md''],
        put_file ''b.json.md'' (ascii ''```json'' @ [10] @ ascii ''{}'' @ [10] @ ascii ''```'')
          example_world)"
proof -
  have r: "read_text example_world ''b.json'' = Inr (str ''{}'')" by code_simp
  have e: "utf8_encode (fence_open @ str ''{}'' @ fence_close)
      = Some (ascii ''```json'' @ [10] @ ascii ''{}'' @ [10] @ ascii ''```'')" by code_simp
  have o: "open_write example_world (''b.json'' @ ''.md'')
      = Inr (put_file ''b.json.md'' [] example_world)" by code_simp
  from prepare_markdown_file_content [OF r] e o r show ?thesis by simp
qed

subsection \<open>The YAML normalizer\<close>

lemma then_yield_None:
  "then_yield a b = (cs, None) \<Longrightarrow> \<exists>c1 c2. a = (c1, None) \<and> b = (c2, None) \<and> cs = c1 @ c2"
  by (cases a; cases b) (auto simp: then_yield_def split: option.splits)

lemma scalar_repr_json_text: "scalar_repr v = Some t \<Longrightarrow> json_text lvl v = t"
  by (cases v) auto

lemma key_str_member_name: "key_str k = Some s \<Longrightarrow> member_name k = s"
  by (cases k) auto

lemma iterencode_json_text:
  "iterencode obj lvl = (cs, None) \<Longrightarrow> concat cs = json_text lvl obj"
  "iterencode_list lst lvl = (cs, None) \<Longrightarrow> concat cs = json_text lvl (PList lst)"
  "iterencode_list_loop buf lst lvl = (cs, None) \<Longrightarrow>
     concat cs = (if lst = [] then [] else buf @ json_elements lvl lst)
                 @ newline_indent (lvl - 1) @ str '']''"
  "iterencode_dict dct lvl = (cs, None) \<Longrightarrow> concat cs = json_text lvl (PDict dct)"
  "iterencode_dict_loop first dct lvl = (cs, None) \<Longrightarrow>
     concat cs = (if dct = [] then []
                  else (if first then [] else str '','' @ newline_indent lvl)
                       @ json_members lvl dct)
                 @ newline_indent (lvl - 1) @ str ''}''"
proof (induction obj lvl and lst lvl and buf lst lvl and dct lvl and first dct lvl
    arbitrary: cs and cs and cs and cs and cs
    rule: iterencode_iterencode_list_iterencode_list_loop_iterencode_dict_iterencode_dict_loop.induct)
  case (1 obj lvl)
  show ?case
  proof (cases "scalar_repr obj")
    case (Some t)
    with "1.prems" show ?thesis by (auto simp: scalar_repr_json_text)
  next
    case None
    show ?thesis
    proof (cases obj)
      case (PList lst)
      with None "1.prems" "1.IH"(1) [OF None PList] show ?thesis by simp
    next
      case (PDict dct)
      with None "1.prems" "1.IH"(2) [OF None PDict] show ?thesis by simp
    qed (use None "1.prems" in auto)
  qed
next
  case (2 lvl)
  then show ?case by auto
next
  case (3 v vs lvl)
  from "3.prems" "3.IH" [of cs] show ?case by simp
next
  case (4 buf lvl)
  then show ?case by auto
next
  case (5 buf v vs lvl)
  from "5.prems" obtain c1 c2 where
    a: "(case scalar_repr v of Some t \<Rightarrow> ([buf @ t], None)
         | None \<Rightarrow> then_yield ([buf], None) (iterencode v lvl)) = (c1, None)"
    and b: "iterencode_list_loop (str '','' @ newline_indent lvl) vs lvl = (c2, None)"
    and cs: "cs = c1 @ c2"
    by (auto dest!: then_yield_None)
  have 1: "concat c1 = buf @ json_text lvl v"
  proof (cases "scalar_repr v")
    case (Some t)
    with a show ?thesis by (auto simp: scalar_repr_json_text)
  next
    case None
    with a obtain c3 where "iterencode v lvl = (c3, None)" "c1 = buf # c3"
      by (auto dest!: then_yield_None)
    with "5.IH"(1) [OF None] show ?thesis by simp
  qed
  from "5.IH"(2) [OF b] 1 cs show ?case by simp
next
  case (6 lvl)
  then show ?case by auto
next
  case (7 kv kvs lvl)
  from "7.prems" obtain c2 where
    "iterencode_dict_loop True (kv # kvs) (Suc lvl) = (c2, None)"
    "cs = [str ''{'', newline_indent (Suc lvl)] @ c2"
    by (auto dest!: then_yield_None)
  with "7.IH" [of c2] show ?case by simp
next
  case (8 first lvl)
  then show ?case by auto
next
  case (9 first k v kvs lvl)
  from "9.prems" obtain ks where ks: "key_str k = Some ks"
    by (cases "key_str k") auto
  with "9.prems" obtain c1 c2 where
    a: "(case scalar_repr v of Some t \<Rightarrow> ([t], None) | None \<Rightarrow> iterencode v lvl) = (c1, None)"
    and b: "iterencode_dict_loop False kvs lvl = (c2, None)"
    and cs: "cs = ((if first then [] else [str '','' @ newline_indent lvl])
               @ [encode_basestring ks, str '': '']) @ c1 @ c2"
    by (auto dest!: then_yield_None)
  have 1: "concat c1 = json_text lvl v"
  proof (cases "scalar_repr v")
    case (Some t)
    with a show ?thesis by (auto simp: scalar_repr_json_text)
  next
    case None
    with a "9.IH"(1) [OF ks None] show ?thesis by simp
  qed
  from "9.IH"(2) [OF ks b] 1 cs key_str_member_name [OF ks] show ?case by simp
qed

lemma utf8_encode_append:
  "utf8_encode (a @ b) =
     (case utf8_encode a of None \<Rightarrow> None
      | Some x \<Rightarrow> (case utf8_encode b of None \<Rightarrow> None | Some y \<Rightarrow> Some (x @ y)))"
  by (induction a) (auto split: option.splits)

lemma write_chunks_concat:
  "write_chunks cs = (bs, None) \<Longrightarrow> utf8_encode (concat cs) = Some bs"
  by (induction cs arbitrary: bs)
     (auto simp: utf8_encode_append split: option.splits prod.splits)

lemma json_dump_json_text:
  assumes "json_dump data = (bs, None)"
  shows "utf8_encode (json_text 0 data) = Some bs"
proof -
  obtain cs e where i: "iterencode data 0 = (cs, e)" by (cases "iterencode data 0")
  obtain bs' e' where c: "write_chunks cs = (bs', e')" by (cases "write_chunks cs")
  from assms i c have "e = None" "e' = None" "bs' = bs"
    by (auto simp: json_dump_def split: option.splits simp del: iterencode.simps)
  with i c iterencode_json_text(1) [of data 0 cs] write_chunks_concat [of cs bs]
  show ?thesis by simp
qed

lemma escape_char_non_ascii: "0x80 \<le> c \<Longrightarrow> escape_char c = [c]"
  by (simp add: escape_char_def)

lemma convert_yaml_to_json_Some:
  assumes "convert_yaml_to_json ex input_file w = (Some json_file, ms, w')"
  shows "json_file = input_file @ ''.json''
         \<and> (\<exists>src data bs.
               read_text w input_file = Inr src \<and> yaml_safe_load ex src = Inr data
               \<and> utf8_encode (json_text 0 data) = Some bs
               \<and> w' = put_file json_file bs w)"
  using assms
  by (auto simp: convert_yaml_to_json_def Let_def put_file_twice
      split: sum.splits prod.splits option.splits
      dest!: open_write_Inr json_dump_json_text)

text \<open>
  C1, as the code has it. Whenever \<^verbatim>\<open>convert_yaml_to_json\<close> returns a path, that path
  is the input path with \<^verbatim>\<open>.json\<close> appended (\<^verbatim>\<open>data.yaml\<close> gives \<^verbatim>\<open>data.yaml.json\<close>),
  and the file at it holds the UTF-8 encoding of the value the loader returned,
  serialized with 4-space indentation; nothing else in the file system has changed.
  The encoder is called with \<^verbatim>\<open>ensure_ascii=False\<close>: a string of characters outside
  ASCII is written as it is between its quotes, not escaped.
\<close>

theorem convert_yaml_to_json_artifact:
  assumes "convert_yaml_to_json ex input_file w = (Some json_file, ms, w')"
  shows "json_file = input_file @ ''.json''
         \<and> (\<exists>src data bs.
               read_text w input_file = Inr src \<and> yaml_safe_load ex src = Inr data
               \<and> utf8_encode (json_text 0 data) = Some bs
               \<and> w' = put_file json_file bs w)
         \<and> (\<forall>s. list_all (\<lambda>c. 0x80 \<le> c) s \<longrightarrow> json_text lvl (PStr s) = [34] @ s @ [34])"
proof -
  have "concat (map escape_char s) = s" if "list_all (\<lambda>c. 0x80 \<le> c) s" for s
    using that by (induction s) (auto simp: escape_char_non_ascii)
  then have 3: "\<forall>s. list_all (\<lambda>c. 0x80 \<le> c) s \<longrightarrow> json_text lvl (PStr s) = [34] @ s @ [34]"
    by (simp add: encode_basestring_def)
  note convert_yaml_to_json_Some [OF assms]
  with 3 show ?thesis by blast
qed

text \<open>
  The claim as the specification states it has every character outside ASCII escaped
  and the written bytes all ASCII. The YAML file below holds the one character U+00E9
  (the bytes C3 A9); its JSON artifact is the four bytes 22 C3 A9 22, the character
  itself between quotes, and not an escape sequence of six ASCII characters.
\<close>

theorem convert_yaml_to_json_artifact_counterexample:
  "convert_yaml_to_json example_ex ''e.yaml'' accent_world
     = (Some ''e.yaml.json'', [JsonCreated ''e.yaml.json''],
        put_file ''e.yaml.json'' [0x22, 0xC3, 0xA9, 0x22] (put_file ''e.yaml.json'' [] accent_world))
   \<and> \<not> ascii_only [0x22, 0xC3, 0xA9, 0x22]"
  by code_simp


theorem convert_yaml_to_json_artifact_witness:
  "fst (convert_yaml_to_json example_ex ''a.yaml'' example_world) = Some ''a.yaml.json''
   \<and> (\<exists>bs. utf8_encode (json_text 0 (PDict [(KStr (str ''key''), PStr (str ''value''))])) = Some bs
          \<and> snd (snd (convert_yaml_to_json example_ex ''a.yaml'' example_world))
              = put_file ''a.yaml.json'' bs example_world)
   \<and> json_text 0 (PDict [(KStr (str ''key''), PStr (str ''value''))])
       = str ''{'' @ [10, 32, 32, 32, 32, 34] @ str ''key'' @ [34] @ str '': '' @ [34]
         @ str ''value'' @ [34, 10] @ str ''}''"
proof -
  have r: "read_text example_world ''a.yaml'' = Inr (str ''key: value'')" by code_simp
  have l: "yaml_safe_load example_ex (str ''key: value'')
      = Inr (PDict [(KStr (str ''key''), PStr (str ''value''))])" by code_simp
  have f: "fst (convert_yaml_to_json example_ex ''a.yaml'' example_world) = Some ''a.yaml.json''"
    by code_simp
  have t: "json_text 0 (PDict [(KStr (str ''key''), PStr (str ''value''))])
       = str ''{'' @ [10, 32, 32, 32, 32, 34] @ str ''key'' @ [34] @ str '': '' @ [34]
         @ str ''value'' @ [34, 10] @ str ''}''" by code_simp
  have "convert_yaml_to_json example_ex ''a.yaml'' example_world
      = (Some ''a.yaml.json'', fst (snd (convert_yaml_to_json example_ex ''a.yaml'' example_world)),
         snd (snd (convert_yaml_to_json example_ex ''a.yaml'' example_world)))"
    using f by (simp add: prod_eq_iff)
  from convert_yaml_to_json_artifact [OF this] r l
  have "\<exists>bs. utf8_encode (json_text 0 (PDict [(KStr (str ''key''), PStr (str ''value''))])) = Some bs
          \<and> snd (snd (convert_yaml_to_json example_ex ''a.yaml'' example_world))
              = put_file ''a.yaml.json'' bs example_world"
    by auto
  with f t show ?thesis by blast
qed

subsection \<open>Reading the JSON artifact back\<close>

lemma hex_value_hex_digit: "d < 16 \<Longrightarrow> hex_value (hex_digit d) = Some d"
  by (auto simp: hex_value_def hex_digit_def)

lemma scanstring_escape_char:
  "scanstring (escape_char c @ t) = cons_char c (scanstring t)"
proof -
  consider "c = 92" | "c = 34" | "c = 8" | "c = 12" | "c = 10" | "c = 13" | "c = 9"
    | "c < 32" "c \<notin> {8, 12, 10, 13, 9}" | "32 \<le> c" "c \<noteq> 92" "c \<noteq> 34"
    by fastforce
  then show ?thesis
  proof cases
    case 8
    then have d: "c div 16 < 16" "c mod 16 < 16" by auto
    from 8 have "((0 * 16 + 0) * 16 + c div 16) * 16 + c mod 16 = c" by simp
    with 8 d show ?thesis
      by (simp add: escape_char_def scanstring.simps(2) [of 92] decode_uXXXX_def
          unescape_def hex_value_hex_digit)
        (simp add: hex_value_def)
  next
    case 9
    then show ?thesis by (simp add: escape_char_def scanstring.simps(2) [of c])
  qed (simp_all add: escape_char_def scanstring.simps(2) [of 92] unescape_def)
qed

lemma scanstring_encoded:
  "scanstring (concat (map escape_char s) @ 34 # rest) = Some (s, rest)"
  by (induction s)
     (simp_all add: scanstring.simps(2) [of 34] scanstring_escape_char cons_char_def)

lemma nat_repr_shape:
  "\<exists>d ds. nat_repr n = d # ds \<and> list_all is_digit ds
           \<and> (if n = 0 then d = 48 \<and> ds = [] else 49 \<le> d \<and> d \<le> 57)"
proof (induction n rule: nat_repr.induct)
  case (1 n)
  show ?case
  proof (cases "n < 10")
    case True
    then show ?thesis by (subst nat_repr.simps) auto
  next
    case False
    then have "n div 10 \<noteq> 0" by simp
    with "1.IH" [OF False] obtain d ds where
      "nat_repr (n div 10) = d # ds" "list_all is_digit ds" "49 \<le> d" "d \<le> 57"
      by auto
    with False show ?thesis
      by (subst nat_repr.simps) (auto simp: is_digit_def)
  qed
qed

lemma digits_value_nat_repr: "digits_value (nat_repr n) = n"
proof (induction n rule: nat_repr.induct)
  case (1 n)
  show ?case
  proof (cases "n < 10")
    case True
    then show ?thesis by (subst nat_repr.simps) (simp add: digits_value_def)
  next
    case False
    with "1.IH" [OF False] show ?thesis
      by (subst nat_repr.simps) (simp add: digits_value_def)
  qed
qed

lemma delimited_not_digit:
  "delimited rest \<Longrightarrow> list_all is_digit ds \<Longrightarrow>
     takeWhile is_digit (ds @ rest) = ds \<and> dropWhile is_digit (ds @ rest) = rest"
  by (induction ds) (auto simp: delimited_def is_digit_def split: list.splits)

lemma match_integer_nat_repr:
  assumes "delimited rest"
  shows "match_integer (nat_repr n @ rest) = Some (nat_repr n, rest)"
proof -
  from nat_repr_shape [of n] obtain d ds where
    s: "nat_repr n = d # ds" "list_all is_digit ds"
    "if n = 0 then d = 48 \<and> ds = [] else 49 \<le> d \<and> d \<le> 57"
    by blast
  show ?thesis
  proof (cases "n = 0")
    case True
    with s show ?thesis by (simp add: match_integer_def)
  next
    case False
    with s delimited_not_digit [OF assms s(2)] show ?thesis
      by (simp add: match_integer_def)
  qed
qed

lemma match_integer_int_repr:
  assumes "delimited rest"
  shows "match_integer (int_repr i @ rest) = Some (int_repr i, rest)"
proof (cases "i < 0")
  case True
  let ?n = "nat (- i)"
  from True have n: "?n \<noteq> 0" by simp
  from nat_repr_shape [of ?n] n obtain d ds where
    s: "nat_repr ?n = d # ds" "list_all is_digit ds" "49 \<le> d" "d \<le> 57"
    by auto
  with True delimited_not_digit [OF assms s(2)] show ?thesis
    by (simp add: match_integer_def int_repr_def)
next
  case False
  from nat_repr_shape [of "nat i"] obtain d ds where
    s: "nat_repr (nat i) = d # ds" "48 \<le> d" by (auto split: if_splits)
  with False match_integer_nat_repr [OF assms, of "nat i"] show ?thesis
    by (simp add: int_repr_def)
qed

lemma parse_int_int_repr: "parse_int (int_repr i) = i"
proof (cases "i < 0")
  case True
  then show ?thesis by (simp add: parse_int_def int_repr_def digits_value_nat_repr)
next
  case False
  from nat_repr_shape [of "nat i"] obtain d ds where
    s: "nat_repr (nat i) = d # ds" "48 \<le> d" by (auto split: if_splits)
  from False have "parse_int (nat_repr (nat i)) = int (digits_value (nat_repr (nat i)))"
    using s by (simp add: parse_int_def)
  with False show ?thesis by (simp add: int_repr_def digits_value_nat_repr)
qed

lemma scan_number_int_repr:
  assumes "delimited rest"
  shows "scan_number (int_repr i @ rest) = Some (PInt i, rest)"
proof -
  from assms have "match_frac rest = ([], rest)" "match_exp rest = ([], rest)"
    by (auto simp: match_frac_def match_exp_def delimited_def split: list.splits)
  with match_integer_int_repr [OF assms, of i] show ?thesis
    by (simp add: scan_number_def parse_int_int_repr)
qed

lemma skip_ws_nonws: "\<not> is_ws c \<Longrightarrow> skip_ws (c # s) = c # s"
  by (simp add: skip_ws_def)

lemma skip_ws_newline_indent: "skip_ws (newline_indent l @ s) = skip_ws s"
proof -
  have "dropWhile is_ws (newline_indent l @ s) = dropWhile is_ws s"
    by (rule dropWhile_append2) (auto simp: newline_indent_def is_ws_def)
  then show ?thesis by (simp add: skip_ws_def)
qed

lemma skip_ws_space: "skip_ws (32 # s) = skip_ws s"
  by (simp add: skip_ws_def is_ws_def)

lemma int_repr_start:
  "\<exists>d ds. int_repr i = d # ds \<and> (d = 45 \<or> (48 \<le> d \<and> d \<le> 57))"
proof (cases "i < 0")
  case True
  then show ?thesis by (simp add: int_repr_def)
next
  case False
  from nat_repr_shape [of "nat i"] obtain d ds where
    "nat_repr (nat i) = d # ds" "48 \<le> d" "d \<le> 57" by (auto split: if_splits)
  with False show ?thesis by (simp add: int_repr_def)
qed

text \<open>
  The texts of floats: with a fraction, with an exponent, the infinities; not NaN, not
  an integer, and nothing after the number.
\<close>

lemma float_text_examples:
  "float_text (str ''1.5'') \<and> float_text (str ''-0.0'') \<and> float_text (str ''1e+16'')
   \<and> float_text (str ''2.5e-05'') \<and> float_text (str ''-Infinity'')
   \<and> \<not> float_text (str ''NaN'') \<and> \<not> float_text (str ''1'') \<and> \<not> float_text (str ''1.5 '')"
  by code_simp

lemma digits_append:
  "delimited rest \<Longrightarrow>
     takeWhile is_digit (xs @ rest) = takeWhile is_digit xs
     \<and> dropWhile is_digit (xs @ rest) = dropWhile is_digit xs @ rest"
  by (induction xs) (auto simp: delimited_def is_digit_def split: list.splits)

lemma match_integer_append:
  assumes "match_integer s = Some (i, r)" and "delimited rest"
  shows "match_integer (s @ rest) = Some (i, r @ rest)"
proof (cases s)
  case Nil
  with assms show ?thesis by (simp add: match_integer_def)
next
  case (Cons c s')
  note d = digits_append [OF assms(2)]
  show ?thesis
  proof (cases "c = 45")
    case False
    with assms Cons show ?thesis
      by (auto simp: match_integer_def d split: if_splits)
  next
    case True
    show ?thesis
    proof (cases s')
      case Nil
      with assms Cons True show ?thesis by (simp add: match_integer_def)
    next
      case (Cons c' s'')
      with assms \<open>s = c # s'\<close> True show ?thesis
        by (auto simp: match_integer_def d split: if_splits)
    qed
  qed
qed

lemma match_frac_append:
  assumes "delimited rest"
  shows "match_frac (s @ rest) = (fst (match_frac s), snd (match_frac s) @ rest)"
proof -
  note d = digits_append [OF assms]
  consider "s = []" | c where "s = [c]" | c c' s' where "s = c # c' # s'"
    by (cases s; cases "tl s") auto
  then show ?thesis
  proof cases
    case 1
    with assms show ?thesis
      by (cases rest; cases "tl rest")
        (auto simp: match_frac_def delimited_def split: list.splits)
  next
    case 2
    with assms show ?thesis
      by (cases rest) (auto simp: match_frac_def delimited_def is_digit_def)
  next
    case 3
    then show ?thesis by (auto simp: match_frac_def d)
  qed
qed

lemma match_exp_append:
  assumes "delimited rest"
  shows "match_exp (s @ rest) = (fst (match_exp s), snd (match_exp s) @ rest)"
proof -
  note d = digits_append [OF assms]
  have nd: "rest = [] \<or> (\<exists>x r. rest = x # r \<and> \<not> is_digit x \<and> x \<noteq> 43 \<and> x \<noteq> 45
      \<and> x \<noteq> 101 \<and> x \<noteq> 69)"
    using assms by (cases rest) (auto simp: delimited_def is_digit_def)
  consider "s = []" | c where "s = [c]" | c x where "s = [c, x]"
    | c x y s' where "s = c # x # y # s'"
    by (cases s; cases "tl s"; cases "tl (tl s)") auto
  then show ?thesis
  proof cases
    case 1
    with nd show ?thesis by (auto simp: match_exp_def)
  next
    case 2
    with nd show ?thesis by (auto simp: match_exp_def)
  next
    case 3
    with nd show ?thesis by (auto simp: match_exp_def d)
  next
    case 4
    then show ?thesis by (auto simp: match_exp_def d)
  qed
qed

lemma scan_number_append:
  assumes "scan_number s = Some (v, r)" and "delimited rest"
  shows "scan_number (s @ rest) = Some (v, r @ rest)"
proof -
  from assms(1) obtain i r0 where i: "match_integer s = Some (i, r0)"
    by (auto simp: scan_number_def split: option.splits)
  obtain f r1 where f: "match_frac r0 = (f, r1)" by (cases "match_frac r0")
  obtain e r2 where e: "match_exp r1 = (e, r2)" by (cases "match_exp r1")
  from match_integer_append [OF i assms(2)] match_frac_append [OF assms(2), of r0]
    match_exp_append [OF assms(2), of r1] f e
  have "match_integer (s @ rest) = Some (i, r0 @ rest)"
    "match_frac (r0 @ rest) = (f, r1 @ rest)" "match_exp (r1 @ rest) = (e, r2 @ rest)"
    by simp_all
  with assms(1) i f e show ?thesis by (auto simp: scan_number_def)
qed

lemma match_integer_first:
  "match_integer s = Some (i, r) \<Longrightarrow> \<exists>c t. s = c # t \<and> (c = 45 \<or> is_digit c)"
  by (cases s; cases "tl s")
    (auto simp: match_integer_def is_digit_def split: if_splits)

lemma float_text_first:
  assumes "float_text r"
  shows "\<exists>c t. r = c # t \<and> (c = 45 \<or> is_digit c \<or> c = 73)"
  using assms match_integer_first [of r]
  by (auto simp: float_text_def str_def scan_number_def split: option.splits)

lemma scan_once_number:
  assumes "scan_number s = Some (v, rest)"
  shows "scan_once (Suc n) s = Some (v, rest)"
proof -
  from assms obtain i r0 where "match_integer s = Some (i, r0)"
    by (auto simp: scan_number_def split: option.splits)
  from match_integer_first [OF this] obtain c t where
    s: "s = c # t" and c: "c = 45 \<or> is_digit c" by blast
  from c assms show ?thesis
    unfolding s by (auto simp: scan_once.simps str_def is_digit_def)
qed

lemma scan_once_infinity:
  "scan_once (Suc n) (str ''Infinity'' @ rest) = Some (PFloat (str ''Infinity''), rest)"
  by (simp add: scan_once.simps str_def scan_number_def match_integer_def)

lemma scan_once_minus_infinity:
  "scan_once (Suc n) (str ''-Infinity'' @ rest) = Some (PFloat (str ''-Infinity''), rest)"
  by (simp add: scan_once.simps str_def scan_number_def match_integer_def)

lemma scan_once_float:
  assumes "float_text r" and "delimited rest"
  shows "scan_once (Suc n) (r @ rest) = Some (PFloat r, rest)"
proof -
  from assms(1) consider "r = str ''Infinity''" | "r = str ''-Infinity''"
    | "scan_number r = Some (PFloat r, [])"
    by (auto simp: float_text_def)
  then show ?thesis
  proof cases
    case 1
    then show ?thesis by (simp only: scan_once_infinity)
  next
    case 2
    then show ?thesis by (simp only: scan_once_minus_infinity)
  next
    case 3
    from scan_number_append [OF 3 assms(2)] show ?thesis
      by (simp add: scan_once_number)
  qed
qed

lemma not_digit_cr: "\<not> is_digit 13"
  by (simp add: is_digit_def)

lemma takeWhile_digit_no_cr: "13 \<notin> set (takeWhile is_digit xs)"
  by (auto simp: is_digit_def dest: set_takeWhileD)

lemma match_integer_no_cr: "match_integer s = Some (i, r) \<Longrightarrow> 13 \<notin> set i"
  by (cases s; cases "tl s")
    (auto simp: match_integer_def takeWhile_digit_no_cr not_digit_cr split: if_splits)

lemma match_frac_no_cr: "13 \<notin> set (fst (match_frac s))"
  by (cases s; cases "tl s")
    (auto simp: match_frac_def takeWhile_digit_no_cr not_digit_cr)

lemma match_exp_no_cr: "13 \<notin> set (fst (match_exp s))"
  by (cases s; cases "tl s"; cases "tl (tl s)")
    (auto simp: match_exp_def takeWhile_digit_no_cr not_digit_cr)

lemma float_text_no_cr:
  assumes "float_text r"
  shows "13 \<notin> set r"
proof -
  from assms consider "r = str ''Infinity''" | "r = str ''-Infinity''"
    | "scan_number r = Some (PFloat r, [])"
    by (auto simp: float_text_def)
  then show ?thesis
  proof cases
    case 3
    then obtain i r0 where i: "match_integer r = Some (i, r0)"
      by (auto simp: scan_number_def split: option.splits)
    obtain f r1 where f: "match_frac r0 = (f, r1)" by (cases "match_frac r0")
    obtain e r2 where e: "match_exp r1 = (e, r2)" by (cases "match_exp r1")
    from 3 i f e have "r = i @ f @ e"
      by (auto simp: scan_number_def split: if_splits)
    moreover from match_frac_no_cr [of r0] f have "13 \<notin> set f" by simp
    moreover from match_exp_no_cr [of r1] e have "13 \<notin> set e" by simp
    ultimately show ?thesis using match_integer_no_cr [OF i] by simp
  qed (simp_all add: str_def)
qed

lemma json_text_start:
  assumes "json_exact v"
  shows "\<exists>c t. json_text lvl v = c # t \<and> \<not> is_ws c \<and> c \<noteq> 93 \<and> c \<noteq> 0xFEFF"
proof (cases v)
  case (PInt i)
  from int_repr_start [of i] obtain d ds where
    "int_repr i = d # ds" "d = 45 \<or> (48 \<le> d \<and> d \<le> 57)" by blast
  with PInt show ?thesis by (auto simp: is_ws_def)
next
  case (PFloat r)
  with assms float_text_first [of r] show ?thesis by (auto simp: is_ws_def is_digit_def)
qed (use assms in \<open>auto simp: str_def is_ws_def encode_basestring_def\<close>)

lemma json_elements_start:
  assumes "xs \<noteq> []" and "json_exact_list xs"
  shows "\<exists>c t. json_elements lvl xs = c # t \<and> \<not> is_ws c \<and> c \<noteq> 93"
proof -
  from assms obtain x ys where "xs = x # ys" "json_exact x" by (cases xs) auto
  with json_text_start [of x lvl] show ?thesis by auto
qed

lemma json_members_start:
  "kvs \<noteq> [] \<Longrightarrow> json_members lvl kvs = 34 # tl (json_members lvl kvs)"
  by (cases kvs) (auto simp: encode_basestring_def)

lemma dict_set_fresh: "k \<notin> fst ` set d \<Longrightarrow> dict_set d k v = d @ [(k, v)]"
  by (induction d) auto

lemma foldl_dict_set:
  "distinct (map fst (d @ kvs)) \<Longrightarrow> foldl (\<lambda>d (k, v). dict_set d k v) d kvs = d @ kvs"
proof (induction kvs arbitrary: d)
  case Nil
  then show ?case by simp
next
  case (Cons kv kvs)
  obtain k v where kv: "kv = (k, v)" by (cases kv)
  from Cons.prems kv have f: "k \<notin> fst ` set d" by auto
  from Cons.prems kv have "distinct (map fst ((d @ [(k, v)]) @ kvs))" by auto
  from Cons.IH [OF this] f kv show ?case by (simp add: dict_set_fresh)
qed

lemma dict_of_pairs_distinct: "distinct (map fst kvs) \<Longrightarrow> dict_of_pairs kvs = kvs"
  using foldl_dict_set [of "[]" kvs] by (simp add: dict_of_pairs_def)

lemma scan_once_string:
  "scan_once (Suc n) (34 # r) =
     (case scanstring r of None \<Rightarrow> None | Some (t, r') \<Rightarrow> Some (PStr t, r'))"
  by (simp add: scan_once.simps)

lemma scan_once_list:
  "scan_once (Suc n) (91 # r) =
     (case skip_ws r of
        [] \<Rightarrow> None
      | k # r2 \<Rightarrow> if k = 93 then Some (PList [], r2) else parse_array n [] (k # r2))"
  by (simp add: scan_once.simps)

lemma scan_once_dict:
  "scan_once (Suc n) (123 # r) =
     (case skip_ws r of
        [] \<Rightarrow> None
      | k # r2 \<Rightarrow>
          if k = 125 then Some (PDict [], r2)
          else if k = 34 then parse_object n [] r2
          else None)"
  by (simp add: scan_once.simps)

lemma scan_once_null: "scan_once (Suc n) (str ''null'' @ rest) = Some (PNone, rest)"
  by (simp add: scan_once.simps str_def)

lemma scan_once_true: "scan_once (Suc n) (str ''true'' @ rest) = Some (PBool True, rest)"
  by (simp add: scan_once.simps str_def)

lemma scan_once_false: "scan_once (Suc n) (str ''false'' @ rest) = Some (PBool False, rest)"
  by (simp add: scan_once.simps str_def)

lemma scan_once_int:
  assumes "delimited rest"
  shows "scan_once (Suc n) (int_repr i @ rest) = Some (PInt i, rest)"
proof -
  from int_repr_start [of i] obtain d ds where
    s: "int_repr i = d # ds" and d: "d = 45 \<or> (48 \<le> d \<and> d \<le> 57)" by blast
  have "scan_once (Suc n) (d # ds @ rest) = scan_number (d # ds @ rest)"
    using d scan_number_int_repr [OF assms, of i] s
    by (auto simp: scan_once.simps str_def)
  with scan_number_int_repr [OF assms, of i] s show ?thesis by simp
qed

lemma parse_array_step:
  "parse_array (Suc n) acc s =
     (case scan_once n s of
        None \<Rightarrow> None
      | Some (v, r) \<Rightarrow>
          (case skip_ws r of
             [] \<Rightarrow> None
           | c # r1 \<Rightarrow>
               if c = 93 then Some (PList (acc @ [v]), r1)
               else if c = 44 then parse_array n (acc @ [v]) (skip_ws r1)
               else None))"
  by (simp add: parse_array.simps)

lemma scan_roundtrip:
  "json_exact v \<Longrightarrow> length (json_text lvl v) \<le> n \<Longrightarrow> delimited rest \<Longrightarrow>
     scan_once n (json_text lvl v @ rest) = Some (v, rest)"
  "xs \<noteq> [] \<Longrightarrow> json_exact_list xs \<Longrightarrow> length (json_elements lvl xs) < n \<Longrightarrow>
     parse_array n acc (json_elements lvl xs @ newline_indent l' @ 93 # rest)
       = Some (PList (acc @ xs), rest)"
  "kvs \<noteq> [] \<Longrightarrow> json_exact_items kvs \<Longrightarrow> length (json_members lvl kvs) < n \<Longrightarrow>
     parse_object n pairs (tl (json_members lvl kvs) @ newline_indent l' @ 125 # rest)
       = Some (PDict (dict_of_pairs (pairs @ kvs)), rest)"
proof (induction lvl v and lvl xs and lvl kvs
    arbitrary: n rest and n acc rest l' and n pairs rest l'
    rule: json_text_json_elements_json_members.induct)
  case (1 lvl)
  then obtain m where "n = Suc m" by (cases n) (auto simp: str_def)
  then show ?case by (simp add: scan_once_null)
next
  case (2 lvl b)
  then obtain m where "n = Suc m" by (cases n) (auto simp: str_def split: if_splits)
  then show ?case by (simp add: scan_once_true scan_once_false)
next
  case (3 lvl i)
  from int_repr_start [of i] "3.prems" obtain m where "n = Suc m" by (cases n) auto
  with "3.prems" show ?case by (simp add: scan_once_int)
next
  case (4 lvl r)
  from float_text_first [of r] "4.prems" obtain m where "n = Suc m" by (cases n) auto
  with "4.prems" show ?case by (simp add: scan_once_float)
next
  case (5 lvl s)
  then obtain m where "n = Suc m" by (cases n) (auto simp: encode_basestring_def)
  then show ?case
    by (simp add: encode_basestring_def scan_once_string scanstring_encoded)
next
  case (6 lvl xs)
  show ?case
  proof (cases "xs = []")
    case True
    with "6.prems" obtain m where "n = Suc m" by (cases n) (auto simp: str_def)
    with True show ?thesis
      by (simp add: str_def scan_once_list skip_ws_nonws is_ws_def)
  next
    case False
    from "6.prems" False have ex: "json_exact_list xs" by simp
    from "6.prems" False obtain m where n: "n = Suc m"
      and m: "length (json_elements (Suc lvl) xs) < m"
      by (cases n) (auto simp: str_def newline_indent_def)
    from json_elements_start [OF False ex, of "Suc lvl"] obtain c t where
      st: "json_elements (Suc lvl) xs = c # t" "\<not> is_ws c" "c \<noteq> 93" by blast
    have "scan_once n (json_text lvl (PList xs) @ rest)
        = scan_once (Suc m) (91 # newline_indent (Suc lvl)
            @ (json_elements (Suc lvl) xs @ newline_indent lvl @ 93 # rest))"
      using False n by (simp add: str_def)
    also have "\<dots> = parse_array m [] (json_elements (Suc lvl) xs @ newline_indent lvl @ 93 # rest)"
      using st by (simp add: scan_once_list skip_ws_newline_indent skip_ws_nonws)
    also have "\<dots> = Some (PList ([] @ xs), rest)"
      by (rule "6.IH" [OF False False ex m])
    finally show ?thesis by simp
  qed
next
  case (7 lvl kvs)
  show ?case
  proof (cases "kvs = []")
    case True
    with "7.prems" obtain m where "n = Suc m" by (cases n) (auto simp: str_def)
    with True show ?thesis
      by (simp add: str_def scan_once_dict skip_ws_nonws is_ws_def)
  next
    case False
    from "7.prems" False have ex: "json_exact_items kvs" and di: "distinct (map fst kvs)"
      by simp_all
    from "7.prems" False obtain m where n: "n = Suc m"
      and m: "length (json_members (Suc lvl) kvs) < m"
      by (cases n) (auto simp: str_def newline_indent_def)
    note st = json_members_start [OF False, of "Suc lvl"]
    have "scan_once n (json_text lvl (PDict kvs) @ rest)
        = scan_once (Suc m) (123 # newline_indent (Suc lvl)
            @ (json_members (Suc lvl) kvs @ newline_indent lvl @ 125 # rest))"
      using False n by (simp add: str_def)
    also have "\<dots> = scan_once (Suc m) (123 # newline_indent (Suc lvl)
            @ (34 # tl (json_members (Suc lvl) kvs) @ newline_indent lvl @ 125 # rest))"
      by (subst st) simp
    also have "\<dots> = parse_object m [] (tl (json_members (Suc lvl) kvs) @ newline_indent lvl @ 125 # rest)"
      by (simp add: scan_once_dict skip_ws_newline_indent skip_ws_nonws is_ws_def)
    also have "\<dots> = Some (PDict (dict_of_pairs ([] @ kvs)), rest)"
      by (rule "7.IH" [OF False False ex m])
    finally show ?thesis using di by (simp add: dict_of_pairs_distinct)
  qed
next
  case (8 lvl)
  then show ?case by simp
next
  case (9 lvl)
  then show ?case by simp
next
  case (10 lvl x xs)
  from "10.prems" have ex: "json_exact x" and exs: "json_exact_list xs" by simp_all
  from "10.prems" obtain m where n: "n = Suc m" by (cases n) auto
  define rest1 where "rest1 =
    (if xs = [] then [] else str '','' @ newline_indent lvl @ json_elements lvl xs)
    @ newline_indent l' @ 93 # rest"
  have d: "delimited rest1"
    by (simp add: rest1_def delimited_def str_def newline_indent_def)
  from "10.prems" n have lx: "length (json_text lvl x) \<le> m" by simp
  have sc: "scan_once m (json_text lvl x @ rest1) = Some (x, rest1)"
    by (rule "10.IH"(1) [OF ex lx d])
  have whole: "json_elements lvl (x # xs) @ newline_indent l' @ 93 # rest
      = json_text lvl x @ rest1"
    by (simp add: rest1_def)
  have "parse_array (Suc m) acc (json_text lvl x @ rest1) = Some (PList (acc @ x # xs), rest)"
  proof (cases "xs = []")
    case True
    then have "skip_ws rest1 = 93 # rest"
      by (simp add: rest1_def skip_ws_newline_indent skip_ws_nonws is_ws_def)
    with sc True show ?thesis by (simp add: parse_array_step)
  next
    case False
    from "10.prems" n False have lxs: "length (json_elements lvl xs) < m"
      by (simp add: str_def)
    from json_elements_start [OF False exs, of lvl] obtain c t where
      st: "json_elements lvl xs = c # t" "\<not> is_ws c" by blast
    define rest2 where "rest2 = json_elements lvl xs @ newline_indent l' @ 93 # rest"
    have r1: "skip_ws rest1 = 44 # newline_indent lvl @ rest2"
      using False by (simp add: rest1_def rest2_def str_def skip_ws_nonws is_ws_def)
    have sk: "skip_ws (newline_indent lvl @ rest2) = rest2"
      using st by (simp add: rest2_def skip_ws_newline_indent skip_ws_nonws)
    have "parse_array (Suc m) acc (json_text lvl x @ rest1) = parse_array m (acc @ [x]) rest2"
      by (simp add: parse_array_step sc r1 sk)
    also have "\<dots> = Some (PList ((acc @ [x]) @ xs), rest)"
      unfolding rest2_def by (rule "10.IH"(2) [OF False False exs lxs])
    finally show ?thesis by simp
  qed
  with n whole show ?case by simp
next
  case (11 lvl)
  then show ?case by simp
next
  case (12 lvl k v kvs)
  from "12.prems" obtain ks where k: "k = KStr ks" by (cases k) auto
  from "12.prems" have ex: "json_exact v" and exs: "json_exact_items kvs" by simp_all
  from "12.prems" obtain m where n: "n = Suc m" by (cases n) auto
  define rest1 where "rest1 =
    (if kvs = [] then [] else str '','' @ newline_indent lvl @ json_members lvl kvs)
    @ newline_indent l' @ 125 # rest"
  have d: "delimited rest1"
    by (simp add: rest1_def delimited_def str_def newline_indent_def)
  from "12.prems" n have lx: "length (json_text lvl v) \<le> m" by simp
  have sc: "scan_once m (json_text lvl v @ rest1) = Some (v, rest1)"
    by (rule "12.IH"(1) [OF ex lx d])
  from json_text_start [OF ex, of lvl] obtain c t where
    st: "json_text lvl v = c # t" "\<not> is_ws c" by blast
  define val where "val = json_text lvl v @ rest1"
  have whole: "tl (json_members lvl ((k, v) # kvs)) @ newline_indent l' @ 125 # rest
      = concat (map escape_char ks) @ 34 # (58 # 32 # val)"
    using k by (simp add: encode_basestring_def str_def rest1_def val_def)
  have ss: "scanstring (concat (map escape_char ks) @ 34 # (58 # 32 # val))
      = Some (ks, 58 # 32 # val)"
    by (rule scanstring_encoded)
  have c58: "skip_ws (58 # 32 # val) = 58 # 32 # val"
    by (simp add: skip_ws_nonws is_ws_def)
  have sv: "skip_ws (32 # val) = val"
    using st by (simp add: val_def skip_ws_space skip_ws_nonws)
  have sc': "scan_once m val = Some (v, rest1)"
    using sc by (simp add: val_def)
  have step: "parse_object (Suc m) pairs (concat (map escape_char ks) @ 34 # (58 # 32 # val))
      = (case skip_ws rest1 of
           [] \<Rightarrow> None
         | d # r3 \<Rightarrow>
             if d = 125 then Some (PDict (dict_of_pairs (pairs @ [(KStr ks, v)])), r3)
             else if d = 44 then
               (case skip_ws r3 of
                  [] \<Rightarrow> None
                | q # r4 \<Rightarrow>
                    if q = 34 then parse_object m (pairs @ [(KStr ks, v)]) r4 else None)
             else None)"
    by (simp add: parse_object.simps ss c58 sv sc')
  have "parse_object (Suc m) pairs (concat (map escape_char ks) @ 34 # (58 # 32 # val))
      = Some (PDict (dict_of_pairs (pairs @ (k, v) # kvs)), rest)"
  proof (cases "kvs = []")
    case True
    then have "skip_ws rest1 = 125 # rest"
      by (simp add: rest1_def skip_ws_newline_indent skip_ws_nonws is_ws_def)
    with True k show ?thesis unfolding step by simp
  next
    case False
    from "12.prems" n False have lxs: "length (json_members lvl kvs) < m"
      by (simp add: str_def)
    define rest2 where "rest2 = tl (json_members lvl kvs) @ newline_indent l' @ 125 # rest"
    have ms: "json_members lvl kvs @ newline_indent l' @ 125 # rest = 34 # rest2"
      by (subst json_members_start [OF False, of lvl]) (simp add: rest2_def)
    have r1: "skip_ws rest1 = 44 # newline_indent lvl @ 34 # rest2"
      using False ms by (simp add: rest1_def str_def skip_ws_nonws is_ws_def)
    have sk: "skip_ws (newline_indent lvl @ 34 # rest2) = 34 # rest2"
      by (simp add: skip_ws_newline_indent skip_ws_nonws is_ws_def)
    have "parse_object (Suc m) pairs (concat (map escape_char ks) @ 34 # (58 # 32 # val))
        = parse_object m (pairs @ [(KStr ks, v)]) rest2"
      unfolding step by (simp add: r1 sk)
    also have "\<dots> = Some (PDict (dict_of_pairs ((pairs @ [(KStr ks, v)]) @ kvs)), rest)"
      unfolding rest2_def by (rule "12.IH"(2) [OF False False exs lxs])
    finally show ?thesis using k by simp
  qed
  with n whole show ?case by simp
qed

lemma unat_byte: "n < 256 \<Longrightarrow> unat (of_nat n :: 8 word) = n"
  by (simp add: unat_of_nat)

lemma split2: "(c::nat) div 0x40 * 0x40 + c mod 0x40 = c"
  by (rule div_mult_mod_eq)

lemma split3: "(c::nat) div 0x1000 * 0x1000 + c div 0x40 mod 0x40 * 0x40 + c mod 0x40 = c"
proof -
  have 1: "c div 0x1000 = c div 0x40 div 0x40" by (simp add: div_mult2_eq)
  have 2: "c div 0x40 div 0x40 * 0x40 + c div 0x40 mod 0x40 = c div 0x40"
    by (rule div_mult_mod_eq)
  have "c div 0x1000 * 0x1000 + c div 0x40 mod 0x40 * 0x40 + c mod 0x40
      = (c div 0x40 div 0x40 * 0x40 + c div 0x40 mod 0x40) * 0x40 + c mod 0x40"
    unfolding 1 by (simp only: add_mult_distrib mult.assoc) (simp?)
  also have "\<dots> = c div 0x40 * 0x40 + c mod 0x40" unfolding 2 ..
  also have "\<dots> = c" by (rule div_mult_mod_eq)
  finally show ?thesis .
qed

lemma split4: "(c::nat) div 0x40000 * 0x40000 + c div 0x1000 mod 0x40 * 0x1000
        + c div 0x40 mod 0x40 * 0x40 + c mod 0x40 = c"
proof -
  have 1: "c div 0x40000 = c div 0x1000 div 0x40" by (simp add: div_mult2_eq)
  have 2: "c div 0x1000 div 0x40 * 0x40 + c div 0x1000 mod 0x40 = c div 0x1000"
    by (rule div_mult_mod_eq)
  have "c div 0x40000 * 0x40000 + c div 0x1000 mod 0x40 * 0x1000
        + c div 0x40 mod 0x40 * 0x40 + c mod 0x40
      = (c div 0x1000 div 0x40 * 0x40 + c div 0x1000 mod 0x40) * 0x1000
        + c div 0x40 mod 0x40 * 0x40 + c mod 0x40"
    unfolding 1 by (simp only: add_mult_distrib mult.assoc) (simp?)
  also have "\<dots> = c div 0x1000 * 0x1000 + c div 0x40 mod 0x40 * 0x40 + c mod 0x40"
    unfolding 2 ..
  also have "\<dots> = c" by (rule split3)
  finally show ?thesis .
qed

lemma utf8_decode_encode_char:
  assumes "utf8_encode_char c = Some bs"
  shows "utf8_decode (bs @ rest) = map_option ((#) c) (utf8_decode rest)"
proof -
  define b0 :: byte where "b0 = of_nat c"
  define c1 :: byte where "c1 = of_nat (0x80 + c mod 0x40)"
  define c2 :: byte where "c2 = of_nat (0x80 + c div 0x40 mod 0x40)"
  define c3 :: byte where "c3 = of_nat (0x80 + c div 0x1000 mod 0x40)"
  define h2 :: byte where "h2 = of_nat (0xC0 + c div 0x40)"
  define h3 :: byte where "h3 = of_nat (0xE0 + c div 0x1000)"
  define h4 :: byte where "h4 = of_nat (0xF0 + c div 0x40000)"
  have u1: "unat c1 = 0x80 + c mod 0x40" unfolding c1_def by (rule unat_byte) simp
  have u2: "unat c2 = 0x80 + c div 0x40 mod 0x40" unfolding c2_def by (rule unat_byte) simp
  have u3: "unat c3 = 0x80 + c div 0x1000 mod 0x40" unfolding c3_def by (rule unat_byte) simp
  have cont: "is_cont c1" "is_cont c2" "is_cont c3"
    "cont_bits c1 = c mod 0x40" "cont_bits c2 = c div 0x40 mod 0x40"
    "cont_bits c3 = c div 0x1000 mod 0x40"
    by (simp_all add: is_cont_def cont_bits_def u1 u2 u3)
  consider "c < 0x80" | "0x80 \<le> c" "c < 0x800" | "0x800 \<le> c" "c < 0x10000"
    | "0x10000 \<le> c" "c < 0x110000" | "0x110000 \<le> c"
    by linarith
  then show ?thesis
  proof cases
    case 1
    with assms have bs: "bs = [b0]" by (simp add: utf8_encode_char_def b0_def)
    from 1 have u: "unat b0 = c" unfolding b0_def by (intro unat_byte) simp
    from 1 show ?thesis unfolding bs by (simp add: u)
  next
    case 2
    with assms have bs: "bs = [h2, c1]"
      by (simp add: utf8_encode_char_def h2_def c1_def)
    from 2 have u: "unat h2 = 0xC0 + c div 0x40" unfolding h2_def by (intro unat_byte) simp
    from 2 have r: "c div 0x40 < 0x20" by simp
    show ?thesis unfolding bs
      using 2 by (simp add: u cont Let_def r split2)
  next
    case 3
    with assms have ns: "\<not> (0xD800 \<le> c \<and> c < 0xE000)"
      and bs: "bs = [h3, c2, c1]"
      by (auto simp: utf8_encode_char_def h3_def c2_def c1_def split: if_splits)
    from 3 have u: "unat h3 = 0xE0 + c div 0x1000" unfolding h3_def by (intro unat_byte) simp
    from 3 have r: "c div 0x1000 < 0x10" by simp
    show ?thesis unfolding bs
      using 3 ns by (simp add: u cont Let_def r split3)
  next
    case 4
    with assms have bs: "bs = [h4, c3, c2, c1]"
      by (simp add: utf8_encode_char_def h4_def c3_def c2_def c1_def)
    from 4 have u: "unat h4 = 0xF0 + c div 0x40000" unfolding h4_def by (intro unat_byte) simp
    from 4 have r: "c div 0x40000 < 8" by simp
    show ?thesis unfolding bs
      using 4 by (simp add: u cont Let_def r split4)
  next
    case 5
    with assms show ?thesis by (simp add: utf8_encode_char_def)
  qed
qed

lemma utf8_decode_encode: "utf8_encode t = Some bs \<Longrightarrow> utf8_decode bs = Some t"
proof (induction t arbitrary: bs)
  case Nil
  then show ?case by simp
next
  case (Cons c t)
  from Cons.prems obtain b r where
    "utf8_encode_char c = Some b" "utf8_encode t = Some r" "bs = b @ r"
    by (auto split: option.splits)
  with Cons.IH [of r] utf8_decode_encode_char [of c b r] show ?case by simp
qed

lemma escape_char_no_cr: "13 \<notin> set (escape_char c)"
  by (auto simp: escape_char_def hex_digit_def)

lemma encode_basestring_no_cr: "13 \<notin> set (encode_basestring s)"
  by (induction s) (auto simp: encode_basestring_def escape_char_no_cr)

lemma nat_repr_digits: "list_all is_digit (nat_repr n)"
  using nat_repr_shape [of n] by (auto simp: is_digit_def split: if_splits)

lemma int_repr_no_cr: "13 \<notin> set (int_repr i)"
  using nat_repr_digits [of "nat i"] nat_repr_digits [of "nat (- i)"]
  by (auto simp: int_repr_def list_all_iff is_digit_def)

lemma newline_indent_no_cr: "13 \<notin> set (newline_indent l)"
  by (simp add: newline_indent_def)

lemma json_text_no_cr:
  "json_exact v \<Longrightarrow> 13 \<notin> set (json_text lvl v)"
  "json_exact_list xs \<Longrightarrow> 13 \<notin> set (json_elements lvl xs)"
  "json_exact_items kvs \<Longrightarrow> 13 \<notin> set (json_members lvl kvs)"
proof (induction lvl v and lvl xs and lvl kvs
    rule: json_text_json_elements_json_members.induct)
  case (12 lvl k v kvs)
  then obtain ks where "k = KStr ks" by (cases k) auto
  with 12 show ?case
    by (auto simp: str_def encode_basestring_no_cr newline_indent_no_cr)
qed (auto simp: str_def encode_basestring_no_cr int_repr_no_cr float_text_no_cr
    newline_indent_no_cr)

lemma universal_newlines_no_cr: "13 \<notin> set t \<Longrightarrow> universal_newlines t = t"
  by (induction t rule: universal_newlines.induct) auto

lemma json_loads_json_text:
  assumes "json_exact v"
  shows "json_loads (json_text 0 v) = Some v"
proof -
  from json_text_start [OF assms, of 0] obtain c t where
    st: "json_text 0 v = c # t" "\<not> is_ws c" "c \<noteq> 0xFEFF" by blast
  have d: "delimited []" by (simp add: delimited_def)
  have "scan_once (2 * length (json_text 0 v) + 1) (json_text 0 v @ []) = Some (v, [])"
    by (rule scan_roundtrip(1) [OF assms _ d]) simp
  with st show ?thesis
    by (simp add: json_loads_def skip_ws_nonws) (simp add: skip_ws_def)
qed

lemma json_load_bytes_json_text:
  assumes "json_exact v" and "utf8_encode (json_text 0 v) = Some bs"
  shows "json_load_bytes bs = Some v"
  using utf8_decode_encode [OF assms(2)] json_text_no_cr(1) [OF assms(1), of 0]
    json_loads_json_text [OF assms(1)]
  by (simp add: json_load_bytes_def universal_newlines_no_cr)

text \<open>
  C7, as the code has it. Let the loader return \<open>data\<close> for the YAML file, let
  \<open>data\<close> be a tree of \<^verbatim>\<open>None\<close>, booleans, integers, floats other than NaN, strings,
  lists and dicts whose keys are strings, and let \<^verbatim>\<open>convert_yaml_to_json\<close> return a path. Then the file
  at that path, decoded and parsed by the JSON decoder, gives \<open>data\<close> again, a float
  being compared by the text it is printed as.
\<close>

theorem yaml_json_roundtrip:
  assumes "convert_yaml_to_json ex input_file w = (Some json_file, ms, w')"
    and "read_text w input_file = Inr src"
    and "yaml_safe_load ex src = Inr data"
    and "json_exact data"
  shows "\<exists>bs. lookup w' json_file = Some (File bs) \<and> json_load_bytes bs = Some data"
proof -
  from convert_yaml_to_json_Some [OF assms(1)] assms(2,3)
  obtain bs where "utf8_encode (json_text 0 data) = Some bs" "w' = put_file json_file bs w"
    by auto
  with json_load_bytes_json_text [OF assms(4)] show ?thesis
    by (auto simp: lookup_put_file)
qed

text \<open>
  The claim as the specification states it, for every valid YAML input, fails on a
  mapping whose key is not a string: JSON has only string names, and the encoder
  writes the integer key 1 as the name \<^verbatim>\<open>"1"\<close>. The artifact of \<^verbatim>\<open>1: a\<close> parses to a
  dict with the string key, which differs from the dict the loader made.
\<close>

theorem yaml_json_roundtrip_counterexample:
  "read_text key_world ''k.yaml'' = Inr (str ''1: a'')
   \<and> yaml_safe_load example_ex (str ''1: a'') = Inr (PDict [(KInt 1, PStr (str ''a''))])
   \<and> convert_yaml_to_json example_ex ''k.yaml'' key_world
       = (Some ''k.yaml.json'', [JsonCreated ''k.yaml.json''],
          put_file ''k.yaml.json''
            [0x7B, 0x0A, 0x20, 0x20, 0x20, 0x20, 0x22, 0x31, 0x22, 0x3A, 0x20, 0x22, 0x61, 0x22,
             0x0A, 0x7D]
            (put_file ''k.yaml.json'' [] key_world))
   \<and> json_load_bytes
         [0x7B, 0x0A, 0x20, 0x20, 0x20, 0x20, 0x22, 0x31, 0x22, 0x3A, 0x20, 0x22, 0x61, 0x22,
          0x0A, 0x7D]
       = Some (PDict [(KStr (str ''1''), PStr (str ''a''))])
   \<and> PDict [(KStr (str ''1''), PStr (str ''a''))] \<noteq> PDict [(KInt 1, PStr (str ''a''))]"
  by code_simp

theorem yaml_json_roundtrip_witness:
  "json_exact (PDict [(KStr (str ''key''), PStr (str ''value''))])
   \<and> (\<exists>bs. lookup (snd (snd (convert_yaml_to_json example_ex ''a.yaml'' example_world)))
             ''a.yaml.json'' = Some (File bs)
          \<and> json_load_bytes bs = Some (PDict [(KStr (str ''key''), PStr (str ''value''))]))"
proof -
  have r: "read_text example_world ''a.yaml'' = Inr (str ''key: value'')" by code_simp
  have l: "yaml_safe_load example_ex (str ''key: value'')
      = Inr (PDict [(KStr (str ''key''), PStr (str ''value''))])" by code_simp
  have f: "fst (convert_yaml_to_json example_ex ''a.yaml'' example_world) = Some ''a.yaml.json''"
    by code_simp
  have x: "json_exact (PDict [(KStr (str ''key''), PStr (str ''value''))])" by code_simp
  have c: "convert_yaml_to_json example_ex ''a.yaml'' example_world
      = (Some ''a.yaml.json'', fst (snd (convert_yaml_to_json example_ex ''a.yaml'' example_world)),
         snd (snd (convert_yaml_to_json example_ex ''a.yaml'' example_world)))"
    using f by (simp add: prod_eq_iff)
  from yaml_json_roundtrip [OF c r l x] x show ?thesis by blast
qed

end
